theory Spec2Isabelle
  imports Main
begin

section \<open>The dining philosophers simulation: philo.c and free.c\<close>

text \<open>
  The program runs one thread per philosopher (\<^verbatim>\<open>philosopher_lifecycle\<close>, philo.c) and a
  monitor (\<^verbatim>\<open>monitor_simulation_and_cleanup\<close>, free.c) over one shared
  \<^verbatim>\<open>t_simulation\<close>. The straight-line bodies of the C functions are embedded as lists of
  instructions, each paired with the source line it stands on; the functions of the
  monitor that run inside the critical section of \<^verbatim>\<open>data_mutex\<close> are embedded as state
  passing functions; the threads are put together by a step function that is driven by
  an explicit schedule. The header philo.h is not among the sources: integers are
  unbounded \<open>int\<close> (no field width is known; signed overflow is undefined in C and is not
  modelled), \<^verbatim>\<open>TRUE\<close>, \<^verbatim>\<open>FALSE\<close> and \<^verbatim>\<open>NOT_DEAD\<close> are taken as 1, 0 and 0.
\<close>

subsection \<open>C arithmetic and constants\<close>

text \<open>Division and remainder of C truncate towards zero.\<close>

definition c_div :: "int \<Rightarrow> int \<Rightarrow> int" where
  "c_div a b = sgn a * sgn b * (\<bar>a\<bar> div \<bar>b\<bar>)"

definition c_mod :: "int \<Rightarrow> int \<Rightarrow> int" where
  "c_mod a b = a - b * c_div a b"

definition TRUE :: int where
  "TRUE = 1"

definition FALSE :: int where
  "FALSE = 0"

definition NOT_DEAD :: int where
  "NOT_DEAD = 0"

text \<open>The parameter of \<^verbatim>\<open>usleep\<close> is a \<^verbatim>\<open>useconds_t\<close>, an unsigned integer of 32 bits: the
  call converts its argument modulo \<open>2\<^sup>3\<^sup>2\<close>, so that a negative argument becomes a large
  positive one.\<close>

definition useconds_t :: "int \<Rightarrow> int" where
  "useconds_t us = us mod 4294967296"

subsection \<open>Data\<close>

text \<open>A step of a thread either yields a value, or cannot be taken now (a held mutex, a
  thread to join that still runs, a thread that has returned), or is undefined behaviour
  of C (an index outside its array, unlocking a mutex the thread does not hold).\<close>

datatype 'a outcome = Next 'a | Blocked | Fault

datatype thread_id = Philo nat | Monitor

record philosopher =
  philo_id :: int
  left_fork_index :: int
  right_fork_index :: int
  last_meal_time :: int
  meals_eaten :: int

record simulation =
  philosopher_count :: int
  time_to_die :: int
  time_to_eat :: int
  time_to_sleep :: int
  required_meals :: int
  simulation_ended :: bool
  philosophers :: "philosopher list"
  fork_mutexes :: "thread_id option list"
  print_mutex :: "thread_id option"
  data_mutex :: "thread_id option"

datatype mutex = Fork_mutex int | Print_mutex | Data_mutex

text \<open>The statements of a philosopher thread. \<open>Spend_time d\<close> is the call
  \<^verbatim>\<open>philo_spend_time(philo, d)\<close>; once it has read its start time it is \<open>Spend_loop\<close> (at
  the loop condition, line 92) or \<open>Spend_body\<close> (inside the loop, line 94).
  \<open>Break_if_finished\<close> is \<^verbatim>\<open>if (is_simulation_finished(sim)) break;\<close>.\<close>

datatype action =
    Lock mutex
  | Unlock mutex
  | Print string int
  | Usleep int
  | Set_last_meal_time
  | Inc_meals_eaten
  | Spend_time int
  | Spend_loop int int
  | Spend_body int int
  | Break_if_finished

type_synonym instr = "nat \<times> action"

text \<open>What the threads do that is seen from outside: a call of a printing function
  (philosopher id, message, third argument), a call of \<^verbatim>\<open>usleep\<close> (the microseconds it
  receives), the destruction of a mutex. The state keeps them in order, each with the
  thread that did it.\<close>

datatype event =
    Printed int string int
  | Slept int
  | Destroyed mutex

text \<open>A philosopher thread is the list of instructions it still has to run before it
  is back at the loop condition of line 172 (\<open>Running []\<close> is that condition), or it has
  returned.\<close>

datatype thread = Running "instr list" | Returned

datatype monitor_pc = Mon_start | Mon_poll int | Mon_join int | Mon_destroy | Mon_returned

record state =
  sim :: simulation
  threads :: "thread list"
  monitor :: monitor_pc
  clock :: int
  events :: "(thread_id \<times> event) list"

subsection \<open>Mutexes and array reads\<close>

fun pthread_mutex_lock :: "thread_id \<Rightarrow> mutex \<Rightarrow> simulation \<Rightarrow> simulation outcome" where
  "pthread_mutex_lock t Data_mutex s =
     (if data_mutex s = None then Next (s\<lparr>data_mutex := Some t\<rparr>) else Blocked)"
| "pthread_mutex_lock t Print_mutex s =
     (if print_mutex s = None then Next (s\<lparr>print_mutex := Some t\<rparr>) else Blocked)"
| "pthread_mutex_lock t (Fork_mutex k) s =
     (if 0 \<le> k \<and> nat k < length (fork_mutexes s)
      then (if fork_mutexes s ! nat k = None
            then Next (s\<lparr>fork_mutexes := (fork_mutexes s)[nat k := Some t]\<rparr>)
            else Blocked)
      else Fault)"

fun pthread_mutex_unlock :: "thread_id \<Rightarrow> mutex \<Rightarrow> simulation \<Rightarrow> simulation outcome" where
  "pthread_mutex_unlock t Data_mutex s =
     (if data_mutex s = Some t then Next (s\<lparr>data_mutex := None\<rparr>) else Fault)"
| "pthread_mutex_unlock t Print_mutex s =
     (if print_mutex s = Some t then Next (s\<lparr>print_mutex := None\<rparr>) else Fault)"
| "pthread_mutex_unlock t (Fork_mutex k) s =
     (if 0 \<le> k \<and> nat k < length (fork_mutexes s) \<and> fork_mutexes s ! nat k = Some t
      then Next (s\<lparr>fork_mutexes := (fork_mutexes s)[nat k := None]\<rparr>)
      else Fault)"

definition philo_at :: "simulation \<Rightarrow> int \<Rightarrow> philosopher option" where
  "philo_at s i =
     (if 0 \<le> i \<and> nat i < length (philosophers s) then Some (philosophers s ! nat i) else None)"

text \<open>Modelled from the spec: \<^verbatim>\<open>is_simulation_finished\<close> is not among the sources; the
  termination flag is read under the state lock.\<close>

definition is_simulation_finished :: "simulation \<Rightarrow> bool outcome" where
  "is_simulation_finished s =
     (if data_mutex s = None then Next (simulation_ended s) else Blocked)"

subsection \<open>philo.c\<close>

text \<open>\<^verbatim>\<open>acquire_forks\<close>, lines 27 to 50, with its three branches.\<close>

definition acquire_forks :: "philosopher \<Rightarrow> instr list" where
  "acquire_forks philo =
     (if c_mod (philo_id philo) 2 = 1 then
        [(31, Lock (Fork_mutex (left_fork_index philo))),
         (32, Print ''has taken a left fork'' NOT_DEAD),
         (33, Lock (Fork_mutex (right_fork_index philo))),
         (34, Print ''has taken a right fork'' NOT_DEAD)]
      else if c_mod (philo_id philo) 2 = 1 then
        [(38, Lock (Fork_mutex (right_fork_index philo))),
         (39, Print ''has taken a right fork'' NOT_DEAD),
         (40, Lock (Fork_mutex (left_fork_index philo))),
         (41, Print ''has taken a left fork'' NOT_DEAD)]
      else
        [(45, Lock (Fork_mutex (right_fork_index philo))),
         (46, Print ''has taken a right fork'' NOT_DEAD),
         (47, Lock (Fork_mutex (left_fork_index philo))),
         (48, Print ''has taken a left fork'' NOT_DEAD)])"

definition release_forks :: "philosopher \<Rightarrow> instr list" where
  "release_forks philo =
     [(64, Unlock (Fork_mutex (left_fork_index philo))),
      (65, Unlock (Fork_mutex (right_fork_index philo)))]"

text \<open>The argument of \<^verbatim>\<open>usleep\<close> in the loop of \<^verbatim>\<open>philo_spend_time\<close>, lines 98 to 103.\<close>

definition usleep_increment :: "int \<Rightarrow> int" where
  "usleep_increment remaining_time =
     (if remaining_time > 10 then 1000
      else if remaining_time > 1 then 100
      else 10)"

text \<open>\<^verbatim>\<open>philosopher_eat\<close>, lines 124 to 145.\<close>

definition philosopher_eat :: "simulation \<Rightarrow> philosopher \<Rightarrow> instr list" where
  "philosopher_eat s philo =
     (if philosopher_count s = 1 then
        [(131, Lock (Fork_mutex (left_fork_index philo))),
         (132, Print ''has taken a fork'' NOT_DEAD),
         (133, Spend_time (time_to_die s + 1)),
         (134, Unlock (Fork_mutex (left_fork_index philo)))]
      else
        acquire_forks philo @
        [(138, Print ''is eating'' NOT_DEAD),
         (139, Lock Data_mutex),
         (140, Set_last_meal_time),
         (141, Inc_meals_eaten),
         (142, Unlock Data_mutex),
         (143, Spend_time (time_to_eat s))] @
        release_forks philo)"

text \<open>\<^verbatim>\<open>philosopher_lifecycle\<close>: what runs before the loop (lines 170, 171) and the loop
  body (lines 174 to 183). The argument of \<^verbatim>\<open>usleep\<close> at line 171 is the value of the
  expression \<^verbatim>\<open>sim->time_to_eat / 2\<close>; the call converts it when the instruction runs.\<close>

definition lifecycle_entry :: "simulation \<Rightarrow> philosopher \<Rightarrow> instr list" where
  "lifecycle_entry s philo =
     (if c_mod (philo_id philo) 2 = 0 then [(171, Usleep (c_div (time_to_eat s) 2))] else [])"

definition lifecycle_body :: "simulation \<Rightarrow> philosopher \<Rightarrow> instr list" where
  "lifecycle_body s philo =
     philosopher_eat s philo @
     [(175, Break_if_finished),
      (177, Print ''is sleeping'' NOT_DEAD),
      (178, Spend_time (time_to_sleep s)),
      (179, Break_if_finished),
      (181, Print ''is thinking'' NOT_DEAD)] @
     (if c_mod (philosopher_count s) 2 = 1 then [(183, Usleep 100)] else [])"

text \<open>One instruction of philosopher thread \<open>i\<close> (the thread of \<^verbatim>\<open>philosophers[i]\<close>), with
  the instructions \<open>rest\<close> that follow it. Modelled from the spec: the two printing
  functions are not among the sources; a call is recorded as the event the Reporter is
  given (actor id, message), with the third argument of the call.\<close>

definition continue :: "nat \<Rightarrow> instr list \<Rightarrow> state \<Rightarrow> state" where
  "continue i rest st = st\<lparr>threads := (threads st)[i := Running rest]\<rparr>"

fun exec :: "nat \<Rightarrow> philosopher \<Rightarrow> nat \<Rightarrow> action \<Rightarrow> instr list \<Rightarrow> state \<Rightarrow> state outcome" where
  "exec i philo l (Lock m) rest st =
     (case pthread_mutex_lock (Philo i) m (sim st) of
        Next s' \<Rightarrow> Next (continue i rest (st\<lparr>sim := s'\<rparr>))
      | Blocked \<Rightarrow> Blocked
      | Fault \<Rightarrow> Fault)"
| "exec i philo l (Unlock m) rest st =
     (case pthread_mutex_unlock (Philo i) m (sim st) of
        Next s' \<Rightarrow> Next (continue i rest (st\<lparr>sim := s'\<rparr>))
      | Blocked \<Rightarrow> Blocked
      | Fault \<Rightarrow> Fault)"
| "exec i philo l (Print msg flag) rest st =
     Next (continue i rest
       (st\<lparr>events := events st @ [(Philo i, Printed (philo_id philo) msg flag)]\<rparr>))"
| "exec i philo l (Usleep us) rest st =
     Next (continue i rest (st\<lparr>events := events st @ [(Philo i, Slept (useconds_t us))]\<rparr>))"
| "exec i philo l Set_last_meal_time rest st =
     Next (continue i rest
       (st\<lparr>sim := (sim st)\<lparr>philosophers :=
          (philosophers (sim st))[i := philo\<lparr>last_meal_time := clock st\<rparr>]\<rparr>\<rparr>))"
| "exec i philo l Inc_meals_eaten rest st =
     Next (continue i rest
       (st\<lparr>sim := (sim st)\<lparr>philosophers :=
          (philosophers (sim st))[i := philo\<lparr>meals_eaten := meals_eaten philo + 1\<rparr>]\<rparr>\<rparr>))"
| "exec i philo l (Spend_time duration_ms) rest st =
     Next (continue i ((l, Spend_loop (clock st) duration_ms) # rest) st)"
| "exec i philo l (Spend_loop start_time duration_ms) rest st =
     (case is_simulation_finished (sim st) of
        Next finished \<Rightarrow>
          (if finished then Next (continue i rest st)
           else Next (continue i ((l, Spend_body start_time duration_ms) # rest) st))
      | Blocked \<Rightarrow> Blocked
      | Fault \<Rightarrow> Fault)"
| "exec i philo l (Spend_body start_time duration_ms) rest st =
     (let current_time = clock st in
      if current_time - start_time \<ge> duration_ms then Next (continue i rest st)
      else
        (let remaining_time = duration_ms - (current_time - start_time) in
         Next (continue i ((l, Spend_loop start_time duration_ms) # rest)
           (st\<lparr>events := events st @ [(Philo i, Slept (usleep_increment remaining_time))]\<rparr>))))"
| "exec i philo l Break_if_finished rest st =
     (case is_simulation_finished (sim st) of
        Next finished \<Rightarrow>
          (if finished then Next (st\<lparr>threads := (threads st)[i := Returned]\<rparr>)
           else Next (continue i rest st))
      | Blocked \<Rightarrow> Blocked
      | Fault \<Rightarrow> Fault)"

text \<open>A step of philosopher thread \<open>i\<close>. With nothing left to run the thread is at
  \<^verbatim>\<open>while (!is_simulation_finished(sim))\<close>, line 172.\<close>

definition philo_step :: "nat \<Rightarrow> state \<Rightarrow> state outcome" where
  "philo_step i st =
     (if i < length (threads st) \<and> i < length (philosophers (sim st)) then
        (let philo = philosophers (sim st) ! i in
         case threads st ! i of
           Returned \<Rightarrow> Blocked
         | Running [] \<Rightarrow>
             (case is_simulation_finished (sim st) of
                Next finished \<Rightarrow>
                  (if finished then Next (st\<lparr>threads := (threads st)[i := Returned]\<rparr>)
                   else Next (continue i (lifecycle_body (sim st) philo) st))
              | Blocked \<Rightarrow> Blocked
              | Fault \<Rightarrow> Fault)
         | Running ((l, a) # rest) \<Rightarrow> exec i philo l a rest st)
      else Fault)"

subsection \<open>free.c\<close>

text \<open>\<^verbatim>\<open>check_for_death\<close>, lines 15 to 34; the time read at line 22 is the argument.\<close>

function check_for_death_loop :: "simulation \<Rightarrow> int \<Rightarrow> int \<Rightarrow> (simulation \<times> int) outcome" where
  "check_for_death_loop s current_time i =
     (if i < philosopher_count s then
        (case philo_at s i of
           None \<Rightarrow> Fault
         | Some philo \<Rightarrow>
             (let time_since_last_meal = current_time - last_meal_time philo in
              if time_since_last_meal \<ge> time_to_die s
              then Next (s\<lparr>simulation_ended := True\<rparr>, i + 1)
              else check_for_death_loop s current_time (i + 1)))
      else Next (s, FALSE))"
  by pat_completeness auto
termination
  by (relation "measure (\<lambda>(s, t, i). nat (philosopher_count s - i))") auto

definition check_for_death :: "simulation \<Rightarrow> int \<Rightarrow> (simulation \<times> int) outcome" where
  "check_for_death s current_time = check_for_death_loop s current_time 0"

text \<open>\<^verbatim>\<open>check_all_philosophers_satisfied\<close>, lines 36 to 57.\<close>

function satisfied_loop :: "simulation \<Rightarrow> int \<Rightarrow> int \<Rightarrow> int outcome" where
  "satisfied_loop s i satisfied_count =
     (if i < philosopher_count s then
        (case philo_at s i of
           None \<Rightarrow> Fault
         | Some philo \<Rightarrow>
             satisfied_loop s (i + 1)
               (if meals_eaten philo \<ge> required_meals s
                then satisfied_count + 1 else satisfied_count))
      else Next satisfied_count)"
  by pat_completeness auto
termination
  by (relation "measure (\<lambda>(s, i, c). nat (philosopher_count s - i))") auto

definition check_all_philosophers_satisfied :: "simulation \<Rightarrow> (simulation \<times> int) outcome" where
  "check_all_philosophers_satisfied s =
     (if required_meals s = - 1 then Next (s, FALSE)
      else
        (case satisfied_loop s 0 0 of
           Next satisfied_count \<Rightarrow>
             (if satisfied_count \<ge> philosopher_count s
              then Next (s\<lparr>simulation_ended := True\<rparr>, TRUE)
              else Next (s, FALSE))
         | Blocked \<Rightarrow> Blocked
         | Fault \<Rightarrow> Fault))"

text \<open>\<^verbatim>\<open>evaluate_simulation_status\<close>, lines 59 to 75: the new simulation, what is printed,
  and the value returned.\<close>

definition then_do :: "'a outcome \<Rightarrow> ('a \<Rightarrow> 'b outcome) \<Rightarrow> 'b outcome" where
  "then_do r f = (case r of Next x \<Rightarrow> f x | Blocked \<Rightarrow> Blocked | Fault \<Rightarrow> Fault)"

definition evaluate_simulation_status ::
    "simulation \<Rightarrow> int \<Rightarrow> (simulation \<times> event list \<times> int) outcome" where
  "evaluate_simulation_status s current_time =
     then_do (pthread_mutex_lock Monitor Data_mutex s) (\<lambda>s1.
     then_do (check_for_death s1 current_time) (\<lambda>(s2, death_philosopher_id).
       if death_philosopher_id > 0 then
         then_do (pthread_mutex_unlock Monitor Data_mutex s2) (\<lambda>s3.
           case philo_at s3 (death_philosopher_id - 1) of
             None \<Rightarrow> Fault
           | Some philo \<Rightarrow> Next (s3, [Printed (philo_id philo) ''died'' TRUE], TRUE))
       else
         then_do (check_all_philosophers_satisfied s2) (\<lambda>(s3, all_satisfied).
         then_do (pthread_mutex_unlock Monitor Data_mutex s3) (\<lambda>s4.
           Next (s4, [], all_satisfied)))))"

text \<open>\<^verbatim>\<open>cleanup_simulation_resources\<close> after the joins, lines 84 to 98.\<close>

definition destroy_and_free :: "simulation \<Rightarrow> simulation \<times> event list" where
  "destroy_and_free s =
     (s\<lparr>philosophers := [], fork_mutexes := []\<rparr>,
      map (\<lambda>i. Destroyed (Fork_mutex (int i))) [0 ..< nat (philosopher_count s)] @
      [Destroyed Print_mutex, Destroyed Data_mutex])"

text \<open>\<^verbatim>\<open>monitor_simulation_and_cleanup\<close>, lines 101 to 117. An evaluation is one step of
  the monitor: it runs in the critical section of \<^verbatim>\<open>data_mutex\<close>, in which no
  philosopher writes its meal record (lines 139 to 142 hold the same mutex), and prints
  the death right after it. The joins wait for the threads in the order of the
  array.\<close>

definition check_interval_us :: "simulation \<Rightarrow> int" where
  "check_interval_us s =
     (let us = c_div (time_to_die s) 10;
          us = (if us < 500 then 500 else us);
          us = (if us > 5000 then 5000 else us)
      in us)"

definition monitor_step :: "state \<Rightarrow> state outcome" where
  "monitor_step st =
     (case monitor st of
        Mon_start \<Rightarrow> Next (st\<lparr>monitor := Mon_poll (check_interval_us (sim st))\<rparr>)
      | Mon_poll us \<Rightarrow>
          then_do (evaluate_simulation_status (sim st) (clock st)) (\<lambda>(s', printed, r).
            if r = TRUE
            then Next (st\<lparr>sim := s', events := events st @ map (Pair Monitor) printed,
                         monitor := Mon_join 0\<rparr>)
            else Next (st\<lparr>sim := s',
                         events := events st @ map (Pair Monitor) printed @ [(Monitor, Slept us)]\<rparr>))
      | Mon_join i \<Rightarrow>
          (if i < philosopher_count (sim st) then
             (if 0 \<le> i \<and> nat i < length (threads st) then
                (if threads st ! nat i = Returned then Next (st\<lparr>monitor := Mon_join (i + 1)\<rparr>)
                 else Blocked)
              else Fault)
           else Next (st\<lparr>monitor := Mon_destroy\<rparr>))
      | Mon_destroy \<Rightarrow>
          (case destroy_and_free (sim st) of
             (s', destroyed) \<Rightarrow>
               Next (st\<lparr>sim := s', events := events st @ map (Pair Monitor) destroyed,
                       monitor := Mon_returned\<rparr>))
      | Mon_returned \<Rightarrow> Blocked)"

subsection \<open>The threads together\<close>

text \<open>Modelled from the spec: \<^verbatim>\<open>get_current_time_ms\<close> is not among the sources; it reads
  the clock of the spec's TimeSource, in milliseconds, which never runs backwards. A
  schedule names, step by step, the thread that runs or the milliseconds that pass on
  that clock. A call of \<^verbatim>\<open>usleep\<close> is recorded with its argument and does not constrain
  the schedule: the model has every run of the program, and more.\<close>

datatype choice = Run_philo nat | Run_monitor | Tick int

fun step :: "choice \<Rightarrow> state \<Rightarrow> state outcome" where
  "step (Run_philo i) st = philo_step i st"
| "step Run_monitor st = monitor_step st"
| "step (Tick ms) st = (if 0 \<le> ms then Next (st\<lparr>clock := clock st + ms\<rparr>) else Fault)"

fun run :: "choice list \<Rightarrow> state \<Rightarrow> state outcome" where
  "run [] st = Next st"
| "run (c # cs) st = then_do (step c st) (run cs)"


subsection \<open>Notions the properties are stated with\<close>

text \<open>The fork indices a list of instructions locks, in the order it locks them.\<close>

fun fork_locked :: "instr \<Rightarrow> int list" where
  "fork_locked (l, Lock (Fork_mutex k)) = [k]"
| "fork_locked _ = []"

definition locked_forks :: "instr list \<Rightarrow> int list" where
  "locked_forks code = concat (map fork_locked code)"

text \<open>The policy in the words of the spec: odd-id actors acquire the left fork then the
  right fork, even-id actors the right fork then the left fork.\<close>

definition intended_fork_order :: "philosopher \<Rightarrow> int list" where
  "intended_fork_order philo =
     (if odd (philo_id philo) then [left_fork_index philo, right_fork_index philo]
      else [right_fork_index philo, left_fork_index philo])"

text \<open>The array \<^verbatim>\<open>philosophers\<close> holds \<^verbatim>\<open>philosopher_count\<close> records, and record \<open>i\<close> has
  id \<open>i + 1\<close> (the initialisation is not among the sources; the spec numbers the actors
  1 to actor_count, and \<^verbatim>\<open>check_for_death\<close> returns \<open>i + 1\<close> for record \<open>i\<close>).\<close>

definition records_allocated :: "simulation \<Rightarrow> bool" where
  "records_allocated s = (int (length (philosophers s)) = philosopher_count s)"

definition ids_in_order :: "simulation \<Rightarrow> bool" where
  "ids_in_order s =
     (map philo_id (philosophers s) = map (\<lambda>i. int i + 1) [0 ..< length (philosophers s)])"

definition starving :: "simulation \<Rightarrow> int \<Rightarrow> nat \<Rightarrow> bool" where
  "starving s now i = (now - last_meal_time (philosophers s ! i) \<ge> time_to_die s)"

definition satisfied :: "simulation \<Rightarrow> philosopher \<Rightarrow> bool" where
  "satisfied s philo = (meals_eaten philo \<ge> required_meals s)"

text \<open>A number of milliseconds in microseconds.\<close>

definition ms_as_us :: "int \<Rightarrow> int" where
  "ms_as_us ms = 1000 * ms"

text \<open>The instruction of the source that a pending instruction stands for, what a
  thread still has to run, the code a philosopher thread is made of, and the states in
  which every thread runs instructions of that code only.\<close>

fun static :: "instr \<Rightarrow> instr" where
  "static (l, Spend_loop start_time duration_ms) = (l, Spend_time duration_ms)"
| "static (l, Spend_body start_time duration_ms) = (l, Spend_time duration_ms)"
| "static x = x"

fun pending :: "thread \<Rightarrow> instr list" where
  "pending (Running code) = code"
| "pending Returned = []"

definition source_code :: "simulation \<Rightarrow> philosopher \<Rightarrow> instr list" where
  "source_code s philo = lifecycle_entry s philo @ lifecycle_body s philo"

definition from_source :: "state \<Rightarrow> bool" where
  "from_source st =
     (\<forall>i<length (threads st). i < length (philosophers (sim st)) \<longrightarrow>
        static ` set (pending (threads st ! i)) \<subseteq>
          set (source_code (sim st) (philosophers (sim st) ! i)))"

text \<open>The thread a choice of the schedule runs, and the events a thread has issued.\<close>

fun actor :: "choice \<Rightarrow> thread_id option" where
  "actor (Run_philo i) = Some (Philo i)"
| "actor Run_monitor = Some Monitor"
| "actor (Tick ms) = None"

definition issued_by :: "thread_id \<Rightarrow> state \<Rightarrow> event list" where
  "issued_by t st = map snd (filter (\<lambda>x. fst x = t) (events st))"

text \<open>What a philosopher thread runs when it is the only one: the entry, the eat phase of
  lines 131 to 134 and the rest of the loop body.\<close>

definition lonely_code :: "simulation \<Rightarrow> philosopher \<Rightarrow> instr list" where
  "lonely_code s philo =
     lifecycle_entry s philo @
     [(131, Lock (Fork_mutex (left_fork_index philo))),
      (132, Print ''has taken a fork'' NOT_DEAD),
      (133, Spend_time (time_to_die s + 1)),
      (134, Unlock (Fork_mutex (left_fork_index philo))),
      (175, Break_if_finished),
      (177, Print ''is sleeping'' NOT_DEAD),
      (178, Spend_time (time_to_sleep s)),
      (179, Break_if_finished),
      (181, Print ''is thinking'' NOT_DEAD),
      (183, Usleep 100)]"

text \<open>The messages the philosopher threads have printed.\<close>

fun philosopher_message :: "thread_id \<times> event \<Rightarrow> string list" where
  "philosopher_message (Philo i, Printed philo msg flag) = [msg]"
| "philosopher_message _ = []"

definition philosopher_messages :: "state \<Rightarrow> string list" where
  "philosopher_messages st = concat (map philosopher_message (events st))"

definition death_reported :: "state \<Rightarrow> bool" where
  "death_reported st = (\<exists>philo. (Monitor, Printed philo ''died'' TRUE) \<in> set (events st))"







text \<open>What the monitor has printed (it prints deaths only).\<close>

fun is_print :: "event \<Rightarrow> bool" where
  "is_print (Printed philo msg flag) = True"
| "is_print e = False"

definition deaths_reported :: "state \<Rightarrow> event list" where
  "deaths_reported st = filter is_print (issued_by Monitor st)"

subsection \<open>Start states and examples\<close>

text \<open>Modelled from the spec: the initialisation is not among the sources. Actor \<open>i\<close> of
  \<open>n\<close> has the forks \<open>i - 1\<close> and \<open>i % n\<close>, its last meal at the start time and no meal
  eaten; every mutex is free, the flag is false, every thread is at its entry.\<close>

definition initial_philosopher :: "int \<Rightarrow> int \<Rightarrow> int \<Rightarrow> philosopher" where
  "initial_philosopher n start i =
     \<lparr>philo_id = i, left_fork_index = i - 1, right_fork_index = c_mod i n,
      last_meal_time = start, meals_eaten = 0\<rparr>"

definition simulation_of :: "int \<Rightarrow> int \<Rightarrow> int \<Rightarrow> int \<Rightarrow> philosopher list \<Rightarrow> simulation" where
  "simulation_of die eat sleep meals ps =
     \<lparr>philosopher_count = int (length ps), time_to_die = die, time_to_eat = eat,
      time_to_sleep = sleep, required_meals = meals, simulation_ended = False,
      philosophers = ps, fork_mutexes = replicate (length ps) None,
      print_mutex = None, data_mutex = None\<rparr>"

definition initial_state :: "simulation \<Rightarrow> int \<Rightarrow> state" where
  "initial_state s start =
     \<lparr>sim = s, threads = map (\<lambda>philo. Running (lifecycle_entry s philo)) (philosophers s),
      monitor = Mon_start, clock = start, events = []\<rparr>"

definition ate :: "int \<Rightarrow> philosopher \<Rightarrow> philosopher" where
  "ate now philo = philo\<lparr>last_meal_time := now, meals_eaten := meals_eaten philo + 1\<rparr>"

definition three_at_table :: simulation where
  "three_at_table =
     simulation_of 3 2 2 (- 1)
       [ate 4 (initial_philosopher 3 0 1), initial_philosopher 3 0 2, initial_philosopher 3 0 3]"

definition three_fed :: simulation where
  "three_fed =
     simulation_of 3 2 2 1
       [ate 4 (initial_philosopher 3 0 1), ate 4 (initial_philosopher 3 0 2),
        ate 3 (initial_philosopher 3 0 3)]"

definition alone :: state where
  "alone = initial_state (simulation_of 3 2 2 1 [initial_philosopher 1 0 1]) 0"

definition pair_at_table :: state where
  "pair_at_table =
     initial_state
       (simulation_of 3 2 2 (- 1) [initial_philosopher 2 0 1, initial_philosopher 2 0 2]) 0"

section \<open>Properties\<close>

declare check_for_death_loop.simps [simp del] satisfied_loop.simps [simp del]

subsection \<open>C arithmetic\<close>

lemma c_div_nonneg: "0 \<le> a \<Longrightarrow> 0 < b \<Longrightarrow> c_div a b = a div b"
  by (cases "a = 0") (simp_all add: c_div_def)

lemma c_mod_nonneg: "0 \<le> a \<Longrightarrow> 0 < b \<Longrightarrow> c_mod a b = a mod b"
  by (simp add: c_mod_def c_div_nonneg minus_mult_div_eq_mod)


subsection \<open>The checks of the monitor\<close>

lemma check_for_death_loop_none:
  "records_allocated s \<Longrightarrow> 0 \<le> i \<Longrightarrow>
   \<forall>j. nat i \<le> j \<and> j < length (philosophers s) \<longrightarrow> \<not> starving s now j \<Longrightarrow>
   check_for_death_loop s now i = Next (s, FALSE)"
proof (induction s now i rule: check_for_death_loop.induct)
  case (1 s current_time i)
  show ?case
  proof (cases "i < philosopher_count s")
    case False
    then show ?thesis by (simp add: check_for_death_loop.simps [of s current_time i])
  next
    case True
    with "1.prems" have in_range: "0 \<le> i" "nat i < length (philosophers s)"
      by (auto simp: records_allocated_def)
    then have at: "philo_at s i = Some (philosophers s ! nat i)"
      by (simp add: philo_at_def)
    from "1.prems" in_range have alive: "\<not> starving s current_time (nat i)"
      by simp
    have "check_for_death_loop s current_time (i + 1) = Next (s, FALSE)"
    proof (rule "1.IH" [OF True at refl])
      show "\<not> time_to_die s \<le> current_time - last_meal_time (philosophers s ! nat i)"
        using alive by (simp add: starving_def)
      show "records_allocated s" by fact
      show "0 \<le> i + 1" using in_range by simp
      show "\<forall>j. nat (i + 1) \<le> j \<and> j < length (philosophers s) \<longrightarrow> \<not> starving s current_time j"
        using "1.prems"(3) in_range by (auto simp: nat_add_distrib)
    qed
    with True at alive show ?thesis
      by (simp add: check_for_death_loop.simps [of s current_time i] starving_def)
  qed
qed

lemma check_for_death_loop_first:
  "records_allocated s \<Longrightarrow> 0 \<le> i \<Longrightarrow> nat i \<le> k \<Longrightarrow> k < length (philosophers s) \<Longrightarrow>
   starving s now k \<Longrightarrow> \<forall>j. nat i \<le> j \<and> j < k \<longrightarrow> \<not> starving s now j \<Longrightarrow>
   check_for_death_loop s now i = Next (s\<lparr>simulation_ended := True\<rparr>, int k + 1)"
proof (induction s now i rule: check_for_death_loop.induct)
  case (1 s current_time i)
  from "1.prems" have lt: "i < philosopher_count s" and in_range: "nat i < length (philosophers s)"
    by (auto simp: records_allocated_def)
  with "1.prems" have at: "philo_at s i = Some (philosophers s ! nat i)"
    by (simp add: philo_at_def)
  show ?case
  proof (cases "starving s current_time (nat i)")
    case True
    with "1.prems"(3,6) have "k = nat i"
      by (cases "nat i < k") auto
    with True lt at "1.prems"(2) show ?thesis
      by (simp add: check_for_death_loop.simps [of s current_time i] starving_def)
  next
    case False
    with "1.prems" have "nat i \<noteq> k" by auto
    have "check_for_death_loop s current_time (i + 1) =
            Next (s\<lparr>simulation_ended := True\<rparr>, int k + 1)"
    proof (rule "1.IH" [OF lt at refl])
      show "\<not> time_to_die s \<le> current_time - last_meal_time (philosophers s ! nat i)"
        using False by (simp add: starving_def)
      show "records_allocated s" by fact
      show "0 \<le> i + 1" using "1.prems" by simp
      show "nat (i + 1) \<le> k" using "1.prems" \<open>nat i \<noteq> k\<close> by (simp add: nat_add_distrib)
      show "k < length (philosophers s)" by fact
      show "starving s current_time k" by fact
      show "\<forall>j. nat (i + 1) \<le> j \<and> j < k \<longrightarrow> \<not> starving s current_time j"
        using "1.prems" by (auto simp: nat_add_distrib)
    qed
    with False lt at show ?thesis
      by (simp add: check_for_death_loop.simps [of s current_time i] starving_def)
  qed
qed

lemma satisfied_loop_count:
  "records_allocated s \<Longrightarrow> 0 \<le> i \<Longrightarrow>
   satisfied_loop s i c =
     Next (c + int (length (filter (satisfied s) (drop (nat i) (philosophers s)))))"
proof (induction s i c rule: satisfied_loop.induct)
  case (1 s i c)
  show ?case
  proof (cases "i < philosopher_count s")
    case False
    with "1.prems" show ?thesis
      by (simp add: satisfied_loop.simps [of s i c] records_allocated_def)
  next
    case True
    with "1.prems" have in_range: "nat i < length (philosophers s)"
      by (auto simp: records_allocated_def)
    with "1.prems" have at: "philo_at s i = Some (philosophers s ! nat i)"
      by (simp add: philo_at_def)
    have drop: "drop (nat i) (philosophers s) =
                  philosophers s ! nat i # drop (nat (i + 1)) (philosophers s)"
      using in_range "1.prems"(2) by (simp add: Cons_nth_drop_Suc nat_add_distrib)
    have "satisfied_loop s (i + 1)
            (if meals_eaten (philosophers s ! nat i) \<ge> required_meals s then c + 1 else c) =
          Next ((if meals_eaten (philosophers s ! nat i) \<ge> required_meals s then c + 1 else c) +
            int (length (filter (satisfied s) (drop (nat (i + 1)) (philosophers s)))))"
      by (rule "1.IH" [OF True at]) (use "1.prems" in simp_all)
    with True at drop show ?thesis
      by (simp add: satisfied_loop.simps [of s i c] satisfied_def [abs_def])
  qed
qed

lemma all_satisfied_iff:
  "length xs \<le> length (filter P xs) \<longleftrightarrow> (\<forall>x \<in> set xs. P x)"
proof -
  have eq: "length (filter P xs) = length xs \<longleftrightarrow> (\<forall>x \<in> set xs. P x)"
  proof (induction xs)
    case Nil
    show ?case by simp
  next
    case (Cons a xs)
    have "length (filter P xs) \<noteq> Suc (length xs)"
      using length_filter_le [of P xs] by linarith
    with Cons show ?case by auto
  qed
  have "length xs \<le> length (filter P xs) \<longleftrightarrow> length (filter P xs) = length xs"
    using length_filter_le [of P xs] by linarith
  with eq show ?thesis by simp
qed

lemma unlock_restores:
  "data_mutex s = None \<Longrightarrow> s\<lparr>data_mutex := None\<rparr> = s"
  by (cases s) simp

lemma starving_locked [simp]:
  "starving (s\<lparr>data_mutex := m\<rparr>) now k = starving s now k"
  by (simp add: starving_def)

lemma records_allocated_locked [simp]:
  "records_allocated (s\<lparr>data_mutex := m\<rparr>) = records_allocated s"
  by (simp add: records_allocated_def)

lemma check_for_death_first:
  assumes "records_allocated s" "k < length (philosophers s)" "starving s now k"
    "\<forall>j<k. \<not> starving s now j"
  shows "check_for_death s now = Next (s\<lparr>simulation_ended := True\<rparr>, int k + 1)"
  unfolding check_for_death_def
  using assms by (intro check_for_death_loop_first) auto

lemma check_for_death_none:
  assumes "records_allocated s" "\<forall>j<length (philosophers s). \<not> starving s now j"
  shows "check_for_death s now = Next (s, FALSE)"
  unfolding check_for_death_def
  using assms by (intro check_for_death_loop_none) auto

lemma check_all_philosophers_satisfied_eq:
  assumes "records_allocated s"
  shows "check_all_philosophers_satisfied s =
           (if required_meals s \<noteq> - 1 \<and> (\<forall>philo \<in> set (philosophers s). satisfied s philo)
            then Next (s\<lparr>simulation_ended := True\<rparr>, TRUE) else Next (s, FALSE))"
proof -
  have "satisfied_loop s 0 0 = Next (int (length (filter (satisfied s) (philosophers s))))"
    using satisfied_loop_count [OF assms, of 0 0] by simp
  moreover have "philosopher_count s = int (length (philosophers s))"
    using assms by (simp add: records_allocated_def)
  ultimately show ?thesis
    by (simp add: check_all_philosophers_satisfied_def all_satisfied_iff)
qed

lemma evaluate_death:
  assumes "records_allocated s" "data_mutex s = None" "k < length (philosophers s)"
    "starving s now k" "\<forall>j<k. \<not> starving s now j"
  shows "evaluate_simulation_status s now =
           Next (s\<lparr>simulation_ended := True\<rparr>,
                 [Printed (philo_id (philosophers s ! k)) ''died'' TRUE], TRUE)"
proof -
  let ?s1 = "s\<lparr>data_mutex := Some Monitor\<rparr>"
  have "check_for_death ?s1 now = Next (?s1\<lparr>simulation_ended := True\<rparr>, int k + 1)"
    using assms by (intro check_for_death_first) simp_all
  moreover have "s\<lparr>simulation_ended := True, data_mutex := None\<rparr> = s\<lparr>simulation_ended := True\<rparr>"
    using unlock_restores [of "s\<lparr>simulation_ended := True\<rparr>"] assms(2) by simp
  ultimately show ?thesis
    using assms(2,3)
    by (simp add: evaluate_simulation_status_def then_do_def philo_at_def)
qed

lemma evaluate_no_death:
  assumes "records_allocated s" "data_mutex s = None"
    "\<forall>j<length (philosophers s). \<not> starving s now j"
  shows "evaluate_simulation_status s now =
           (if required_meals s \<noteq> - 1 \<and> (\<forall>philo \<in> set (philosophers s). satisfied s philo)
            then Next (s\<lparr>simulation_ended := True\<rparr>, [], TRUE) else Next (s, [], FALSE))"
proof -
  let ?s1 = "s\<lparr>data_mutex := Some Monitor\<rparr>"
  have "check_for_death ?s1 now = Next (?s1, FALSE)"
    using assms by (intro check_for_death_none) simp_all
  moreover have "check_all_philosophers_satisfied ?s1 =
      (if required_meals s \<noteq> - 1 \<and> (\<forall>philo \<in> set (philosophers s). satisfied s philo)
       then Next (?s1\<lparr>simulation_ended := True\<rparr>, TRUE) else Next (?s1, FALSE))"
    using check_all_philosophers_satisfied_eq [of ?s1] assms(1) by (simp add: satisfied_def)
  moreover have "s\<lparr>simulation_ended := True, data_mutex := None\<rparr> = s\<lparr>simulation_ended := True\<rparr>"
    using unlock_restores [of "s\<lparr>simulation_ended := True\<rparr>"] assms(2) by simp
  ultimately show ?thesis
    using assms(2)
    by (simp add: evaluate_simulation_status_def then_do_def FALSE_def unlock_restores)
qed



lemma ids_in_order_nth:
  "ids_in_order s \<Longrightarrow> i < length (philosophers s) \<Longrightarrow> philo_id (philosophers s ! i) = int i + 1"
proof -
  assume a: "ids_in_order s" and i: "i < length (philosophers s)"
  have "philo_id (philosophers s ! i) = map philo_id (philosophers s) ! i"
    using i by simp
  also have "\<dots> = map (\<lambda>i. int i + 1) [0 ..< length (philosophers s)] ! i"
    using a by (simp add: ids_in_order_def)
  also have "\<dots> = int i + 1"
    using i by simp
  finally show ?thesis .
qed

lemma three_at_table_simps:
  "philosophers three_at_table =
     [ate 4 (initial_philosopher 3 0 1), initial_philosopher 3 0 2, initial_philosopher 3 0 3]"
  "philosopher_count three_at_table = 3"
  "time_to_die three_at_table = 3"
  "data_mutex three_at_table = None"
  by (simp_all add: three_at_table_def simulation_of_def)

lemma three_fed_simps:
  "philosophers three_fed =
     [ate 4 (initial_philosopher 3 0 1), ate 4 (initial_philosopher 3 0 2),
      ate 3 (initial_philosopher 3 0 3)]"
  "philosopher_count three_fed = 3"
  "time_to_die three_fed = 3"
  "required_meals three_fed = 1"
  "data_mutex three_fed = None"
  by (simp_all add: three_fed_def simulation_of_def)

subsection \<open>Steps of the threads\<close>

lemma then_do_Next: "then_do r f = Next y \<longleftrightarrow> (\<exists>x. r = Next x \<and> f x = Next y)"
  by (cases r) (simp_all add: then_do_def)

lemma lock_keeps_data:
  assumes "pthread_mutex_lock t m s = Next s'"
  shows "simulation_ended s' = simulation_ended s" and "philosophers s' = philosophers s"
    and "philosopher_count s' = philosopher_count s" and "time_to_die s' = time_to_die s"
    and "time_to_eat s' = time_to_eat s" and "time_to_sleep s' = time_to_sleep s"
    and "required_meals s' = required_meals s"
    and "length (fork_mutexes s') = length (fork_mutexes s)"
  using assms by (cases m; auto split: if_splits)+

lemma unlock_keeps_data:
  assumes "pthread_mutex_unlock t m s = Next s'"
  shows "simulation_ended s' = simulation_ended s" and "philosophers s' = philosophers s"
    and "philosopher_count s' = philosopher_count s" and "time_to_die s' = time_to_die s"
    and "time_to_eat s' = time_to_eat s" and "time_to_sleep s' = time_to_sleep s"
    and "required_meals s' = required_meals s"
    and "length (fork_mutexes s') = length (fork_mutexes s)"
  using assms by (cases m; auto split: if_splits)+

lemma philo_at_Some:
  "philo_at s i = Some philo \<Longrightarrow>
     0 \<le> i \<and> nat i < length (philosophers s) \<and> philo = philosophers s ! nat i"
  by (auto simp: philo_at_def split: if_splits)

lemma check_for_death_loop_writes:
  "check_for_death_loop s now i = Next (s', r) \<Longrightarrow>
     (s' = s \<and> r = FALSE) \<or> (s' = s\<lparr>simulation_ended := True\<rparr> \<and> r > 0 \<and> i < r)"
proof (induction s now i rule: check_for_death_loop.induct)
  case (1 s current_time i)
  from "1.prems" show ?case
    by (subst (asm) check_for_death_loop.simps)
      (auto split: if_splits option.splits simp: Let_def dest!: "1.IH" [rotated -1]
         dest: philo_at_Some)
qed


lemma check_for_death_writes:
  "check_for_death s now = Next (s', r) \<Longrightarrow>
     (s' = s \<and> r = FALSE) \<or> (s' = s\<lparr>simulation_ended := True\<rparr> \<and> r > 0)"
  unfolding check_for_death_def by (drule check_for_death_loop_writes) auto

lemma check_all_philosophers_satisfied_writes:
  "check_all_philosophers_satisfied s = Next (s', r) \<Longrightarrow>
     (s' = s \<and> r = FALSE) \<or> (s' = s\<lparr>simulation_ended := True\<rparr> \<and> r = TRUE)"
  by (auto simp: check_all_philosophers_satisfied_def split: if_splits outcome.splits)

lemma evaluate_writes:
  assumes "evaluate_simulation_status s now = Next (s', printed, r)"
  shows "data_mutex s = None \<and>
         ((s' = s \<and> r = FALSE \<and> printed = []) \<or>
          (s' = s\<lparr>simulation_ended := True\<rparr> \<and> r = TRUE))"
proof -
  from assms obtain s1 s2 d where
      lock: "pthread_mutex_lock Monitor Data_mutex s = Next s1"
      and death: "check_for_death s1 now = Next (s2, d)"
    by (auto simp: evaluate_simulation_status_def then_do_Next)
  from lock have free: "data_mutex s = None" and s1: "s1 = s\<lparr>data_mutex := Some Monitor\<rparr>"
    by (auto split: if_splits)
  have restored: "s\<lparr>data_mutex := None\<rparr> = s"
    using free by (rule unlock_restores)
  have restored': "s\<lparr>simulation_ended := True, data_mutex := None\<rparr> = s\<lparr>simulation_ended := True\<rparr>"
    using unlock_restores [of "s\<lparr>simulation_ended := True\<rparr>"] free by simp
  from check_for_death_writes [OF death]
  show ?thesis
  proof
    assume a: "s2 = s1 \<and> d = FALSE"
    with assms lock death obtain s3 where
        sat: "check_all_philosophers_satisfied s1 = Next (s3, r)"
        and out: "pthread_mutex_unlock Monitor Data_mutex s3 = Next s'" and "printed = []"
      by (auto simp: evaluate_simulation_status_def then_do_Next FALSE_def)
    from check_all_philosophers_satisfied_writes [OF sat] out s1 restored restored' free \<open>printed = []\<close>
    show ?thesis by (auto split: if_splits)
  next
    assume a: "s2 = s1\<lparr>simulation_ended := True\<rparr> \<and> d > 0"
    with assms lock death s1 restored' free show ?thesis
      by (auto simp: evaluate_simulation_status_def then_do_Next split: if_splits option.splits)
  qed
qed


lemma exec_frame:
  assumes "exec i philo l a rest st = Next st'"
  shows "simulation_ended (sim st') = simulation_ended (sim st)"
    and "philosopher_count (sim st') = philosopher_count (sim st)"
    and "time_to_die (sim st') = time_to_die (sim st)"
    and "time_to_eat (sim st') = time_to_eat (sim st)"
    and "time_to_sleep (sim st') = time_to_sleep (sim st)"
    and "required_meals (sim st') = required_meals (sim st)"
    and "monitor st' = monitor st" and "clock st' = clock st"
    and "length (threads st') = length (threads st)"
    and "length (philosophers (sim st')) = length (philosophers (sim st))"
    and "j \<noteq> i \<Longrightarrow> threads st' ! j = threads st ! j"
    and "j \<noteq> i \<Longrightarrow> philosophers (sim st') ! j = philosophers (sim st) ! j"
  using assms
  by (cases a;
      auto simp: continue_def is_simulation_finished_def Let_def
        split: outcome.splits if_splits
        dest: lock_keeps_data unlock_keeps_data)+


lemma philo_stepE:
  assumes "philo_step i st = Next st'"
  obtains
    (leave) "i < length (threads st)" "i < length (philosophers (sim st))"
      "threads st ! i = Running []" "data_mutex (sim st) = None" "simulation_ended (sim st)"
      "st' = st\<lparr>threads := (threads st)[i := Returned]\<rparr>"
  | (enter) "i < length (threads st)" "i < length (philosophers (sim st))"
      "threads st ! i = Running []" "data_mutex (sim st) = None" "\<not> simulation_ended (sim st)"
      "st' = continue i (lifecycle_body (sim st) (philosophers (sim st) ! i)) st"
  | (instr) l a rest where "i < length (threads st)" "i < length (philosophers (sim st))"
      "threads st ! i = Running ((l, a) # rest)"
      "exec i (philosophers (sim st) ! i) l a rest st = Next st'"
proof -
  from assms have range: "i < length (threads st)" "i < length (philosophers (sim st))"
    by (simp_all add: philo_step_def split: if_splits)
  show thesis
  proof (cases "threads st ! i")
    case Returned
    with assms range show thesis by (simp add: philo_step_def)
  next
    case (Running code)
    show thesis
    proof (cases code)
      case Nil
      with Running assms range have free: "data_mutex (sim st) = None"
        by (simp add: philo_step_def is_simulation_finished_def split: if_splits)
      show thesis
      proof (cases "simulation_ended (sim st)")
        case True
        with Nil Running assms range free have "st' = st\<lparr>threads := (threads st)[i := Returned]\<rparr>"
          by (simp add: philo_step_def is_simulation_finished_def)
        with range Nil Running free True show thesis by (intro leave) simp_all
      next
        case False
        with Nil Running assms range free
        have "st' = continue i (lifecycle_body (sim st) (philosophers (sim st) ! i)) st"
          by (simp add: philo_step_def is_simulation_finished_def Let_def)
        with range Nil Running free False show thesis by (intro enter) simp_all
      qed
    next
      case (Cons x rest)
      obtain l a where x: "x = (l, a)" by (cases x)
      with Cons Running assms range
      have "exec i (philosophers (sim st) ! i) l a rest st = Next st'"
        by (simp add: philo_step_def Let_def)
      with range Cons Running x show thesis by (intro instr) simp_all
    qed
  qed
qed

lemma philo_step_frame:
  assumes "philo_step i st = Next st'"
  shows "simulation_ended (sim st') = simulation_ended (sim st)"
    and "philosopher_count (sim st') = philosopher_count (sim st)"
    and "time_to_die (sim st') = time_to_die (sim st)"
    and "time_to_eat (sim st') = time_to_eat (sim st)"
    and "time_to_sleep (sim st') = time_to_sleep (sim st)"
    and "required_meals (sim st') = required_meals (sim st)"
    and "monitor st' = monitor st" and "clock st' = clock st"
    and "length (threads st') = length (threads st)"
    and "length (philosophers (sim st')) = length (philosophers (sim st))"
    and "j \<noteq> i \<Longrightarrow> threads st' ! j = threads st ! j"
    and "j \<noteq> i \<Longrightarrow> philosophers (sim st') ! j = philosophers (sim st) ! j"
proof -
  have "simulation_ended (sim st') = simulation_ended (sim st) \<and>
    philosopher_count (sim st') = philosopher_count (sim st) \<and>
    time_to_die (sim st') = time_to_die (sim st) \<and>
    time_to_eat (sim st') = time_to_eat (sim st) \<and>
    time_to_sleep (sim st') = time_to_sleep (sim st) \<and>
    required_meals (sim st') = required_meals (sim st) \<and>
    monitor st' = monitor st \<and> clock st' = clock st \<and>
    length (threads st') = length (threads st) \<and>
    length (philosophers (sim st')) = length (philosophers (sim st)) \<and>
    (j \<noteq> i \<longrightarrow> threads st' ! j = threads st ! j) \<and>
    (j \<noteq> i \<longrightarrow> philosophers (sim st') ! j = philosophers (sim st) ! j)"
    using assms
  proof (cases rule: philo_stepE)
    case leave
    then show ?thesis by simp
  next
    case enter
    then show ?thesis by (simp add: continue_def)
  next
    case (instr l a rest)
    from exec_frame [OF instr(4)] show ?thesis by simp
  qed
  then show "simulation_ended (sim st') = simulation_ended (sim st)"
    and "philosopher_count (sim st') = philosopher_count (sim st)"
    and "time_to_die (sim st') = time_to_die (sim st)"
    and "time_to_eat (sim st') = time_to_eat (sim st)"
    and "time_to_sleep (sim st') = time_to_sleep (sim st)"
    and "required_meals (sim st') = required_meals (sim st)"
    and "monitor st' = monitor st" and "clock st' = clock st"
    and "length (threads st') = length (threads st)"
    and "length (philosophers (sim st')) = length (philosophers (sim st))"
    and "j \<noteq> i \<Longrightarrow> threads st' ! j = threads st ! j"
    and "j \<noteq> i \<Longrightarrow> philosophers (sim st') ! j = philosophers (sim st) ! j"
    by simp_all
qed


lemma monitor_stepE:
  assumes "monitor_step st = Next st'"
  obtains
    (start) "monitor st = Mon_start" "st' = st\<lparr>monitor := Mon_poll (check_interval_us (sim st))\<rparr>"
  | (finish) us s' printed where "monitor st = Mon_poll us"
      "evaluate_simulation_status (sim st) (clock st) = Next (s', printed, TRUE)"
      "st' = st\<lparr>sim := s', events := events st @ map (Pair Monitor) printed, monitor := Mon_join 0\<rparr>"
  | (retry) us s' printed r where "monitor st = Mon_poll us"
      "evaluate_simulation_status (sim st) (clock st) = Next (s', printed, r)" "r \<noteq> TRUE"
      "st' = st\<lparr>sim := s', events := events st @ map (Pair Monitor) printed @ [(Monitor, Slept us)]\<rparr>"
  | (join) i where "monitor st = Mon_join i" "i < philosopher_count (sim st)"
      "0 \<le> i" "nat i < length (threads st)" "threads st ! nat i = Returned"
      "st' = st\<lparr>monitor := Mon_join (i + 1)\<rparr>"
  | (joined) i where "monitor st = Mon_join i" "\<not> i < philosopher_count (sim st)"
      "st' = st\<lparr>monitor := Mon_destroy\<rparr>"
  | (destroy) "monitor st = Mon_destroy"
      "st' = st\<lparr>sim := fst (destroy_and_free (sim st)),
                 events := events st @ map (Pair Monitor) (snd (destroy_and_free (sim st))),
                 monitor := Mon_returned\<rparr>"
proof (cases "monitor st")
  case Mon_start
  with assms show thesis by (intro start) (simp_all add: monitor_step_def)
next
  case (Mon_poll us)
  with assms obtain s' printed r where
      ev: "evaluate_simulation_status (sim st) (clock st) = Next (s', printed, r)"
      and st': "(if r = TRUE
          then Next (st\<lparr>sim := s', events := events st @ map (Pair Monitor) printed,
                       monitor := Mon_join 0\<rparr>)
          else Next (st\<lparr>sim := s',
                       events := events st @ map (Pair Monitor) printed @ [(Monitor, Slept us)]\<rparr>))
        = Next st'"
    by (auto simp: monitor_step_def then_do_Next)
  show thesis
  proof (cases "r = TRUE")
    case True
    with ev st' Mon_poll show thesis by (intro finish [of us s' printed]) simp_all
  next
    case False
    with ev st' Mon_poll show thesis by (intro retry [of us s' printed r]) simp_all
  qed
next
  case (Mon_join i)
  show thesis
  proof (cases "i < philosopher_count (sim st)")
    case True
    with Mon_join assms show thesis
      by (intro join [of i]) (simp_all add: monitor_step_def split: if_splits)
  next
    case False
    with Mon_join assms show thesis
      by (intro joined [of i]) (simp_all add: monitor_step_def)
  qed
next
  case Mon_destroy
  with assms show thesis
    by (intro destroy) (simp_all add: monitor_step_def split: prod.splits)
next
  case Mon_returned
  with assms show thesis by (simp add: monitor_step_def)
qed

lemma monitor_step_flag:
  assumes "monitor_step st = Next st'"
  shows "simulation_ended (sim st) \<longrightarrow> simulation_ended (sim st')"
    and "simulation_ended (sim st') \<noteq> simulation_ended (sim st) \<longrightarrow>
           simulation_ended (sim st') \<and> (\<exists>us. monitor st = Mon_poll us)"
  using assms
  by (cases rule: monitor_stepE; auto simp: destroy_and_free_def dest!: evaluate_writes)+

lemma step_keeps_flag:
  "step c st = Next st' \<Longrightarrow> simulation_ended (sim st) \<Longrightarrow> simulation_ended (sim st')"
  by (cases c) (auto simp: philo_step_frame monitor_step_flag split: if_splits)

lemma run_Cons_Next:
  "run (c # cs) st = Next st' \<longleftrightarrow> (\<exists>st1. step c st = Next st1 \<and> run cs st1 = Next st')"
  by (simp add: then_do_Next)

lemma run_keeps_flag:
  "run cs st = Next st' \<Longrightarrow> simulation_ended (sim st) \<Longrightarrow> simulation_ended (sim st')"
proof (induction cs arbitrary: st)
  case Nil
  then show ?case by simp
next
  case (Cons c cs)
  from Cons.prems(1) obtain st1 where "step c st = Next st1" "run cs st1 = Next st'"
    by (auto simp: then_do_Next)
  with Cons.IH [of st1] Cons.prems(2) step_keeps_flag show ?case by blast
qed

lemmas evaluation =
  initial_state_def simulation_of_def initial_philosopher_def lifecycle_entry_def
  lifecycle_body_def philosopher_eat_def acquire_forks_def release_forks_def
  philo_step_def monitor_step_def evaluate_simulation_status_def then_do_def
  check_for_death_def check_for_death_loop.simps check_all_philosophers_satisfied_def
  satisfied_loop.simps philo_at_def is_simulation_finished_def continue_def
  check_interval_us_def destroy_and_free_def usleep_increment_def
  c_mod_def c_div_def useconds_t_def TRUE_def FALSE_def NOT_DEAD_def Let_def

subsection \<open>The start of a philosopher\<close>

lemma c_mod_2_even: "c_mod a 2 = 0 \<longleftrightarrow> even a"
proof (cases "0 \<le> a")
  case True
  then show ?thesis by (simp add: c_mod_nonneg even_iff_mod_2_eq_zero)
next
  case False
  then have "c_mod a 2 = - ((- a) mod 2)"
    by (simp add: c_mod_def c_div_def minus_mult_div_eq_mod [symmetric])
  then show ?thesis by presburger
qed

lemma c_div_2: "c_div a 2 = (if 0 \<le> a then a div 2 else - ((- a) div 2))"
proof -
  consider "a = 0" | "0 < a" | "a < 0" by linarith
  then show ?thesis by cases (simp_all add: c_div_def)
qed

subsection \<open>Threads run the code of the source\<close>

lemma source_code_cong:
  assumes "philosopher_count s' = philosopher_count s" "time_to_die s' = time_to_die s"
    "time_to_eat s' = time_to_eat s" "time_to_sleep s' = time_to_sleep s"
    "philo_id p' = philo_id p" "left_fork_index p' = left_fork_index p"
    "right_fork_index p' = right_fork_index p"
  shows "source_code s' p' = source_code s p"
  using assms
  by (simp add: source_code_def lifecycle_entry_def lifecycle_body_def philosopher_eat_def
      acquire_forks_def release_forks_def)

lemma static_source [simp]: "x \<in> set (source_code s p) \<Longrightarrow> static x = x"
  by (auto simp: source_code_def lifecycle_entry_def lifecycle_body_def philosopher_eat_def
      acquire_forks_def release_forks_def split: if_splits)

lemma exec_identity:
  assumes "exec i philo l a rest st = Next st'" "philo = philosophers (sim st) ! i"
    "i < length (philosophers (sim st))"
  shows "philo_id (philosophers (sim st') ! i) = philo_id philo"
    and "left_fork_index (philosophers (sim st') ! i) = left_fork_index philo"
    and "right_fork_index (philosophers (sim st') ! i) = right_fork_index philo"
  using assms
  by (cases a;
      auto simp: continue_def is_simulation_finished_def Let_def
        split: outcome.splits if_splits
        dest: lock_keeps_data unlock_keeps_data)+

lemma exec_pending:
  assumes "exec i philo l a rest st = Next st'" "i < length (threads st)"
  shows "static ` set (pending (threads st' ! i)) \<subseteq> static ` set ((l, a) # rest)"
  using assms
  by (cases a;
      auto simp: continue_def is_simulation_finished_def Let_def
        split: outcome.splits if_splits
        dest: lock_keeps_data unlock_keeps_data)

lemma exec_events:
  assumes "exec i philo l a rest st = Next st'"
  shows "\<exists>new. events st' = events st @ new \<and> (\<forall>x \<in> set new. fst x = Philo i)"
  using assms
  by (cases a;
      auto simp: continue_def is_simulation_finished_def Let_def
        split: outcome.splits if_splits)


lemma philo_step_identity:
  assumes "philo_step i st = Next st'"
  shows "philo_id (philosophers (sim st') ! i) = philo_id (philosophers (sim st) ! i)"
    and "left_fork_index (philosophers (sim st') ! i) = left_fork_index (philosophers (sim st) ! i)"
    and "right_fork_index (philosophers (sim st') ! i) = right_fork_index (philosophers (sim st) ! i)"
  using assms
  by (cases rule: philo_stepE; simp add: continue_def exec_identity)+

lemma philo_step_source_code:
  assumes "philo_step i st = Next st'"
  shows "source_code (sim st') (philosophers (sim st') ! j) =
         source_code (sim st) (philosophers (sim st) ! j)"
proof (cases "j = i")
  case True
  with assms show ?thesis
    by (intro source_code_cong) (simp_all add: philo_step_frame philo_step_identity)
next
  case False
  with assms show ?thesis
    by (intro source_code_cong) (simp_all add: philo_step_frame)
qed

lemma philo_step_pending:
  assumes "philo_step i st = Next st'"
    and "static ` set (pending (threads st ! i)) \<subseteq> set (source_code (sim st) (philosophers (sim st) ! i))"
  shows "static ` set (pending (threads st' ! i)) \<subseteq> set (source_code (sim st) (philosophers (sim st) ! i))"
  using assms(1)
proof (cases rule: philo_stepE)
  case leave
  then show ?thesis by simp
next
  case enter
  then have "pending (threads st' ! i) = lifecycle_body (sim st) (philosophers (sim st) ! i)"
    by (simp add: continue_def)
  then have "set (pending (threads st' ! i)) \<subseteq> set (source_code (sim st) (philosophers (sim st) ! i))"
    by (simp add: source_code_def)
  then show ?thesis by (auto simp del: static.simps)
next
  case (instr l a rest)
  have "static ` set (pending (threads st' ! i)) \<subseteq> static ` set ((l, a) # rest)"
    by (rule exec_pending [OF instr(4,1)])
  also have "\<dots> \<subseteq> set (source_code (sim st) (philosophers (sim st) ! i))"
    using assms(2) instr(3) by simp
  finally show ?thesis .
qed

lemma philo_step_from_source:
  assumes "from_source st" "philo_step i st = Next st'"
  shows "from_source st'"
  unfolding from_source_def
proof (intro allI impI)
  fix j
  assume "j < length (threads st')" "j < length (philosophers (sim st'))"
  with assms(2) have j: "j < length (threads st)" "j < length (philosophers (sim st))"
    by (simp_all add: philo_step_frame)
  with assms(1) have old: "static ` set (pending (threads st ! j)) \<subseteq>
      set (source_code (sim st) (philosophers (sim st) ! j))"
    by (simp add: from_source_def)
  have "static ` set (pending (threads st' ! j)) \<subseteq>
      set (source_code (sim st) (philosophers (sim st) ! j))"
  proof (cases "j = i")
    case True
    with old assms(2) show ?thesis by (simp add: philo_step_pending)
  next
    case False
    with old assms(2) show ?thesis by (simp add: philo_step_frame)
  qed
  then show "static ` set (pending (threads st' ! j)) \<subseteq>
      set (source_code (sim st') (philosophers (sim st') ! j))"
    by (simp only: philo_step_source_code [OF assms(2)])
qed

lemma monitor_step_from_source:
  assumes "from_source st" "monitor_step st = Next st'"
  shows "from_source st'"
  using assms(2)
proof (cases rule: monitor_stepE)
  case start
  with assms(1) show ?thesis by (simp add: from_source_def)
next
  case (finish us s' printed)
  from evaluate_writes [OF finish(2)]
  have "source_code s' = source_code (sim st)" "philosophers s' = philosophers (sim st)"
    by (auto intro!: ext source_code_cong)
  with assms(1) finish show ?thesis by (simp add: from_source_def)
next
  case (retry us s' printed r)
  from evaluate_writes [OF retry(2)]
  have "source_code s' = source_code (sim st)" "philosophers s' = philosophers (sim st)"
    by (auto intro!: ext source_code_cong)
  with assms(1) retry show ?thesis by (simp add: from_source_def)
next
  case (join i)
  with assms(1) show ?thesis by (simp add: from_source_def)
next
  case (joined i)
  with assms(1) show ?thesis by (simp add: from_source_def)
next
  case destroy
  then show ?thesis by (simp add: from_source_def destroy_and_free_def)
qed

lemma step_from_source:
  assumes "from_source st" "step c st = Next st'"
  shows "from_source st'"
proof (cases c)
  case (Run_philo i)
  with assms show ?thesis by (simp add: philo_step_from_source)
next
  case Run_monitor
  with assms show ?thesis by (simp add: monitor_step_from_source)
next
  case (Tick ms)
  with assms(2) have "st' = st\<lparr>clock := clock st + ms\<rparr>" by (simp split: if_splits)
  with assms(1) show ?thesis by (simp add: from_source_def)
qed

lemma run_invariant:
  assumes "\<And>c st st'. P st \<Longrightarrow> step c st = Next st' \<Longrightarrow> P st'"
  shows "P st \<Longrightarrow> run cs st = Next st' \<Longrightarrow> P st'"
proof (induction cs arbitrary: st)
  case Nil
  then show ?case by simp
next
  case (Cons c cs)
  from Cons.prems(2) obtain st1 where "step c st = Next st1" "run cs st1 = Next st'"
    by (auto simp: then_do_Next)
  with Cons.IH [of st1] Cons.prems(1) assms show ?case by blast
qed

lemma initial_from_source: "from_source (initial_state s start)"
  by (auto simp: from_source_def initial_state_def source_code_def lifecycle_entry_def)

lemma run_from_source:
  "run cs (initial_state s start) = Next st \<Longrightarrow> from_source st"
  using step_from_source initial_from_source by (rule run_invariant)


subsection \<open>One philosopher\<close>

lemma lonely_source:
  "philosopher_count s = 1 \<Longrightarrow> source_code s philo = lonely_code s philo"
  by (simp add: source_code_def lonely_code_def lifecycle_body_def philosopher_eat_def
      c_mod_def c_div_def)

lemma exec_messages:
  assumes "exec i philo l a rest st = Next st'"
  shows "philosopher_messages st' =
           philosopher_messages st @ (case a of Print msg flag \<Rightarrow> [msg] | _ \<Rightarrow> [])"
  using assms
  by (cases a;
      auto simp: continue_def is_simulation_finished_def Let_def philosopher_messages_def
        split: outcome.splits if_splits)

lemma exec_records:
  assumes "exec i philo l a rest st = Next st'" "a \<noteq> Set_last_meal_time" "a \<noteq> Inc_meals_eaten"
  shows "philosophers (sim st') = philosophers (sim st)"
  using assms
  by (cases a;
      auto simp: continue_def is_simulation_finished_def Let_def
        split: outcome.splits if_splits
        dest: lock_keeps_data unlock_keeps_data)

lemma philo_step_events:
  assumes "philo_step i st = Next st'"
  shows "\<exists>new. events st' = events st @ new \<and> (\<forall>x \<in> set new. fst x = Philo i)"
  using assms
  by (cases rule: philo_stepE) (auto simp: continue_def dest: exec_events)

lemma monitor_step_events:
  assumes "monitor_step st = Next st'"
  shows "\<exists>new. events st' = events st @ new \<and> (\<forall>x \<in> set new. fst x = Monitor)"
  using assms
  by (cases rule: monitor_stepE) auto


lemma lonely_philo_step:
  assumes "from_source st" "philosopher_count (sim st) = 1" "philo_step i st = Next st'"
  shows "set (philosopher_messages st') \<subseteq>
           set (philosopher_messages st) \<union> {''has taken a fork'', ''is sleeping'', ''is thinking''} \<and>
         philosophers (sim st') = philosophers (sim st)"
  using assms(3)
proof (cases rule: philo_stepE)
  case leave
  then show ?thesis by (auto simp: philosopher_messages_def)
next
  case enter
  then show ?thesis by (auto simp: philosopher_messages_def continue_def)
next
  case (instr l a rest)
  from assms(1) instr(1,2,3)
  have "static (l, a) \<in> set (source_code (sim st) (philosophers (sim st) ! i))"
    by (auto simp: from_source_def)
  then have a: "static (l, a) \<in> set (lonely_code (sim st) (philosophers (sim st) ! i))"
    by (simp only: lonely_source [OF assms(2)])
  then have "a \<noteq> Set_last_meal_time" "a \<noteq> Inc_meals_eaten"
    by (auto simp: lonely_code_def lifecycle_entry_def split: if_splits)
  with instr(4) have records: "philosophers (sim st') = philosophers (sim st)"
    by (rule exec_records)
  from a have "case a of Print msg flag \<Rightarrow>
      msg \<in> {''has taken a fork'', ''is sleeping'', ''is thinking''} | _ \<Rightarrow> True"
    by (cases a) (auto simp: lonely_code_def lifecycle_entry_def split: if_splits)
  with exec_messages [OF instr(4)]
  have "set (philosopher_messages st') \<subseteq>
           set (philosopher_messages st) \<union> {''has taken a fork'', ''is sleeping'', ''is thinking''}"
    by (cases a) auto
  with records show ?thesis by simp
qed


lemma step_config:
  assumes "step c st = Next st'"
  shows "philosopher_count (sim st') = philosopher_count (sim st) \<and>
         required_meals (sim st') = required_meals (sim st) \<and>
         time_to_die (sim st') = time_to_die (sim st)"
proof (cases c)
  case (Run_philo i)
  with assms show ?thesis by (simp add: philo_step_frame)
next
  case Run_monitor
  with assms have "monitor_step st = Next st'" by simp
  then show ?thesis
    by (cases rule: monitor_stepE) (auto simp: destroy_and_free_def dest!: evaluate_writes)
next
  case (Tick ms)
  with assms show ?thesis by (auto split: if_splits)
qed

lemma step_events:
  assumes "step c st = Next st'"
  shows "\<exists>new. events st' = events st @ new \<and> (\<forall>x \<in> set new. Some (fst x) = actor c)"
proof (cases c)
  case (Run_philo i)
  with assms philo_step_events [of i st st'] show ?thesis by auto
next
  case Run_monitor
  with assms monitor_step_events [of st st'] show ?thesis by auto
next
  case (Tick ms)
  with assms show ?thesis by (auto split: if_splits)
qed



lemma step_death_reported:
  assumes "step c st = Next st'" "death_reported st"
  shows "death_reported st'"
  using step_events [OF assms(1)] assms(2) by (auto simp: death_reported_def)

lemma lonely_records_step:
  assumes "from_source st \<and> philosopher_count (sim st) = 1 \<and>
      (monitor st \<noteq> Mon_returned \<longrightarrow> philosophers (sim st) = [philo])"
    and "step c st = Next st'"
  shows "from_source st' \<and> philosopher_count (sim st') = 1 \<and>
      (monitor st' \<noteq> Mon_returned \<longrightarrow> philosophers (sim st') = [philo])"
proof -
  have "from_source st'"
    using assms by (blast intro: step_from_source)
  moreover have "philosopher_count (sim st') = 1"
    using assms step_config [OF assms(2)] by simp
  moreover have "monitor st' \<noteq> Mon_returned \<longrightarrow> philosophers (sim st') = [philo]"
  proof (cases c)
    case (Run_philo i)
    with assms(2) have step: "philo_step i st = Next st'" by simp
    from lonely_philo_step [OF _ _ step] assms(1)
    have "philosophers (sim st') = philosophers (sim st)" by blast
    with assms(1) philo_step_frame(7) [OF step] show ?thesis by simp
  next
    case Run_monitor
    with assms(2) have "monitor_step st = Next st'" by simp
    then show ?thesis
      using assms(1) by (cases rule: monitor_stepE) (auto dest!: evaluate_writes)
  next
    case (Tick ms)
    with assms show ?thesis by (auto split: if_splits)
  qed
  ultimately show ?thesis by blast
qed

lemma lonely_evaluate:
  assumes "philosopher_count s = 1" "philosophers s = [philo]" "meals_eaten philo = 0"
    "1 \<le> required_meals s" "evaluate_simulation_status s now = Next (s', printed, r)"
  shows "(s' = s \<and> printed = [] \<and> r = FALSE) \<or>
         (s' = s\<lparr>simulation_ended := True\<rparr> \<and> printed = [Printed (philo_id philo) ''died'' TRUE] \<and>
          r = TRUE)"
proof -
  have alloc: "records_allocated s"
    using assms(1,2) by (simp add: records_allocated_def)
  have free: "data_mutex s = None"
    using evaluate_writes [OF assms(5)] by simp
  show ?thesis
  proof (cases "starving s now 0")
    case True
    have "evaluate_simulation_status s now =
        Next (s\<lparr>simulation_ended := True\<rparr>, [Printed (philo_id (philosophers s ! 0)) ''died'' TRUE], TRUE)"
      using alloc free True assms(2) by (intro evaluate_death) simp_all
    with assms(2,5) show ?thesis by simp
  next
    case False
    then have none: "\<forall>j<length (philosophers s). \<not> starving s now j"
      using assms(2) by simp
    from evaluate_no_death [OF alloc free none] assms(2,3,4,5)
    show ?thesis by (simp add: satisfied_def)
  qed
qed

lemma lonely_death_step:
  assumes "philosopher_count (sim st) = 1 \<and> required_meals (sim st) = k \<and>
      (monitor st \<noteq> Mon_returned \<longrightarrow> philosophers (sim st) = [philo]) \<and>
      (simulation_ended (sim st) \<longrightarrow> death_reported st)"
    and "meals_eaten philo = 0" "1 \<le> k" "step c st = Next st'"
  shows "simulation_ended (sim st') \<longrightarrow> death_reported st'"
proof (cases c)
  case (Run_philo i)
  with assms(4) have "simulation_ended (sim st') = simulation_ended (sim st)"
    by (simp add: philo_step_frame)
  with assms(1) step_death_reported [OF assms(4)] show ?thesis by blast
next
  case (Tick ms)
  with assms(4) have "simulation_ended (sim st') = simulation_ended (sim st)"
    by (auto split: if_splits)
  with assms(1) step_death_reported [OF assms(4)] show ?thesis by blast
next
  case Run_monitor
  with assms(4) have step: "monitor_step st = Next st'" by simp
  show ?thesis
  proof (cases "\<exists>us. monitor st = Mon_poll us")
    case False
    with monitor_step_flag(2) [OF step]
    have "simulation_ended (sim st') = simulation_ended (sim st)" by blast
    with assms(1) step_death_reported [OF assms(4)] show ?thesis by blast
  next
    case True
    then obtain us where poll: "monitor st = Mon_poll us" by blast
    with assms(1) have one: "philosopher_count (sim st) = 1" "philosophers (sim st) = [philo]"
      "1 \<le> required_meals (sim st)"
      using assms(3) by simp_all
    from step poll obtain s' printed r where
        ev: "evaluate_simulation_status (sim st) (clock st) = Next (s', printed, r)"
        and st': "sim st' = s'" "\<exists>more. events st' = events st @ map (Pair Monitor) printed @ more"
      by (cases rule: monitor_stepE) auto
    from lonely_evaluate [OF one(1,2) assms(2) one(3) ev]
    show ?thesis
    proof
      assume "s' = sim st \<and> printed = [] \<and> r = FALSE"
      with st' have "simulation_ended (sim st') = simulation_ended (sim st)" by simp
      with assms(1) step_death_reported [OF assms(4)] show ?thesis by blast
    next
      assume "s' = (sim st)\<lparr>simulation_ended := True\<rparr> \<and>
          printed = [Printed (philo_id philo) ''died'' TRUE] \<and> r = TRUE"
      with st'(2) have "(Monitor, Printed (philo_id philo) ''died'' TRUE) \<in> set (events st')"
        by auto
      then show ?thesis by (auto simp: death_reported_def)
    qed
  qed
qed


lemma run_config:
  "run cs st = Next st' \<Longrightarrow>
     philosopher_count (sim st') = philosopher_count (sim st) \<and>
     required_meals (sim st') = required_meals (sim st) \<and>
     time_to_die (sim st') = time_to_die (sim st)"
proof (induction cs arbitrary: st)
  case Nil
  then show ?case by simp
next
  case (Cons c cs)
  from Cons.prems obtain st1 where "step c st = Next st1" "run cs st1 = Next st'"
    by (auto simp: then_do_Next)
  with Cons.IH [of st1] step_config [of c st st1] show ?case by simp
qed

lemma lonely_records_run:
  assumes "philosopher_count s = 1" "philosophers s = [philo]"
    "run cs (initial_state s start) = Next st"
  shows "from_source st \<and> philosopher_count (sim st) = 1 \<and>
      (monitor st \<noteq> Mon_returned \<longrightarrow> philosophers (sim st) = [philo])"
proof (rule run_invariant [where P = "\<lambda>st. from_source st \<and> philosopher_count (sim st) = 1 \<and>
      (monitor st \<noteq> Mon_returned \<longrightarrow> philosophers (sim st) = [philo])", OF _ _ assms(3)])
  show "from_source (initial_state s start) \<and> philosopher_count (sim (initial_state s start)) = 1 \<and>
      (monitor (initial_state s start) \<noteq> Mon_returned \<longrightarrow>
         philosophers (sim (initial_state s start)) = [philo])"
    using assms(1,2) initial_from_source [of s start] by (simp add: initial_state_def)
qed (rule lonely_records_step)

lemma lonely_death_run:
  assumes "philosopher_count s = 1" "philosophers s = [philo]" "meals_eaten philo = 0"
    "1 \<le> required_meals s" "\<not> simulation_ended s" "run cs (initial_state s start) = Next st"
  shows "required_meals (sim st) = required_meals s \<and>
      (simulation_ended (sim st) \<longrightarrow> death_reported st)"
proof -
  let ?P = "\<lambda>st. (from_source st \<and> philosopher_count (sim st) = 1 \<and>
      (monitor st \<noteq> Mon_returned \<longrightarrow> philosophers (sim st) = [philo])) \<and>
      required_meals (sim st) = required_meals s \<and>
      (simulation_ended (sim st) \<longrightarrow> death_reported st)"
  have "?P st"
  proof (rule run_invariant [where P = ?P, OF _ _ assms(6)])
    show "?P (initial_state s start)"
      using assms(1,2,5) initial_from_source [of s start] by (simp add: initial_state_def)
  next
    fix c st st'
    assume P: "?P st" and step: "step c st = Next st'"
    from P have records: "from_source st \<and> philosopher_count (sim st) = 1 \<and>
        (monitor st \<noteq> Mon_returned \<longrightarrow> philosophers (sim st) = [philo])" by blast
    have "from_source st' \<and> philosopher_count (sim st') = 1 \<and>
        (monitor st' \<noteq> Mon_returned \<longrightarrow> philosophers (sim st') = [philo])"
      using records step by (rule lonely_records_step)
    moreover have "required_meals (sim st') = required_meals s"
      using P step_config [OF step] by simp
    moreover have "simulation_ended (sim st') \<longrightarrow> death_reported st'"
    proof (rule lonely_death_step [OF _ assms(3,4) step])
      show "philosopher_count (sim st) = 1 \<and> required_meals (sim st) = required_meals s \<and>
          (monitor st \<noteq> Mon_returned \<longrightarrow> philosophers (sim st) = [philo]) \<and>
          (simulation_ended (sim st) \<longrightarrow> death_reported st)"
        using P by blast
    qed
    ultimately show "?P st'" by blast
  qed
  then show ?thesis by blast
qed

subsection \<open>The responsive wait\<close>

lemma monitor_step_threads:
  "monitor_step st = Next st' \<Longrightarrow> threads st' = threads st"
  by (cases rule: monitor_stepE) auto

lemma step_other_thread:
  assumes "step c st = Next st'" "c \<noteq> Run_philo i"
  shows "threads st' ! i = threads st ! i"
proof (cases c)
  case (Run_philo j)
  with assms show ?thesis by (simp add: philo_step_frame)
next
  case Run_monitor
  with assms show ?thesis by (simp add: monitor_step_threads)
next
  case (Tick ms)
  with assms show ?thesis by (auto split: if_splits)
qed

lemma spend_steps:
  assumes "i < length (threads st)" "i < length (philosophers (sim st))"
  shows "threads st ! i = Running ((l, Spend_time d) # rest) \<Longrightarrow>
           philo_step i st = Next (continue i ((l, Spend_loop (clock st) d) # rest) st)"
    and "threads st ! i = Running ((l, Spend_loop t d) # rest) \<Longrightarrow>
           philo_step i st =
             (if data_mutex (sim st) \<noteq> None then Blocked
              else if simulation_ended (sim st) then Next (continue i rest st)
              else Next (continue i ((l, Spend_body t d) # rest) st))"
    and "threads st ! i = Running ((l, Spend_body t d) # rest) \<Longrightarrow>
           philo_step i st =
             (if d \<le> clock st - t then Next (continue i rest st)
              else Next (continue i ((l, Spend_loop t d) # rest)
                (st\<lparr>events := events st @
                   [(Philo i, Slept (if d - (clock st - t) > 10 then 1000
                                     else if d - (clock st - t) > 1 then 100 else 10))]\<rparr>)))"
  using assms
  by (simp_all add: philo_step_def is_simulation_finished_def usleep_increment_def Let_def)

subsection \<open>After termination is observed\<close>









lemma issued_by_append:
  assumes "events st' = events st @ new" "\<forall>x \<in> set new. fst x \<noteq> t"
  shows "issued_by t st' = issued_by t st"
proof -
  have "filter (\<lambda>x. fst x = t) new = []"
    using assms(2) by (induction new) auto
  with assms(1) show ?thesis by (simp add: issued_by_def)
qed



subsection \<open>One death at most\<close>

lemma evaluate_prints:
  assumes "evaluate_simulation_status s now = Next (s', printed, r)"
  shows "length (filter is_print printed) \<le> 1 \<and> (r \<noteq> TRUE \<longrightarrow> printed = [])"
proof -
  from assms obtain s1 s2 d where
      lock: "pthread_mutex_lock Monitor Data_mutex s = Next s1"
      and death: "check_for_death s1 now = Next (s2, d)"
    by (auto simp: evaluate_simulation_status_def then_do_Next)
  show ?thesis
  proof (cases "d > 0")
    case True
    with assms lock death show ?thesis
      by (auto simp: evaluate_simulation_status_def then_do_Next split: option.splits)
  next
    case False
    with assms lock death show ?thesis
      by (auto simp: evaluate_simulation_status_def then_do_Next)
  qed
qed

lemma issued_by_monitor_append:
  "events st' = events st @ map (Pair Monitor) new \<Longrightarrow>
     issued_by Monitor st' = issued_by Monitor st @ new"
  by (simp add: issued_by_def filter_map comp_def)

lemma one_death_step:
  assumes "length (deaths_reported st) \<le> 1 \<and>
      ((monitor st = Mon_start \<or> (\<exists>us. monitor st = Mon_poll us)) \<longrightarrow> deaths_reported st = [])"
    and "step c st = Next st'"
  shows "length (deaths_reported st') \<le> 1 \<and>
      ((monitor st' = Mon_start \<or> (\<exists>us. monitor st' = Mon_poll us)) \<longrightarrow> deaths_reported st' = [])"
proof (cases "c = Run_monitor")
  case False
  from step_events [OF assms(2)] obtain new where
    new: "events st' = events st @ new" "\<forall>x \<in> set new. Some (fst x) = actor c" by blast
  from False have "actor c \<noteq> Some Monitor" by (cases c) auto
  with new(2) have "\<forall>x \<in> set new. fst x \<noteq> Monitor" by auto
  with new(1) have same: "issued_by Monitor st' = issued_by Monitor st"
    by (rule issued_by_append)
  have "monitor st' = monitor st"
    using assms(2) False by (cases c) (auto simp: philo_step_frame split: if_splits)
  with same assms(1) show ?thesis by (simp add: deaths_reported_def)
next
  case True
  with assms(2) have "monitor_step st = Next st'" by simp
  then show ?thesis
  proof (cases rule: monitor_stepE)
    case start
    with assms(1) show ?thesis by (simp add: deaths_reported_def issued_by_def)
  next
    case (finish us s' printed)
    from finish(3) have "issued_by Monitor st' = issued_by Monitor st @ printed"
      by (intro issued_by_monitor_append) simp
    with evaluate_prints [OF finish(2)] assms(1) finish(1,3) show ?thesis
      by (simp add: deaths_reported_def)
  next
    case (retry us s' printed r)
    from evaluate_prints [OF retry(2)] retry(3) have "printed = []" by simp
    with retry(4) have "issued_by Monitor st' = issued_by Monitor st @ [Slept us]"
      by (intro issued_by_monitor_append) simp
    with assms(1) retry(1,4) show ?thesis
      by (simp add: deaths_reported_def)
  next
    case (join i)
    with assms(1) show ?thesis by (simp add: deaths_reported_def issued_by_def)
  next
    case (joined i)
    with assms(1) show ?thesis by (simp add: deaths_reported_def issued_by_def)
  next
    case destroy
    then have "issued_by Monitor st' =
        issued_by Monitor st @ snd (destroy_and_free (sim st))"
      by (intro issued_by_monitor_append) simp
    with assms(1) destroy show ?thesis
      by (simp add: deaths_reported_def destroy_and_free_def filter_map comp_def)
  qed
qed

lemma one_death_run:
  assumes "run cs (initial_state s start) = Next st"
  shows "length (deaths_reported st) \<le> 1"
proof -
  have none: "deaths_reported (initial_state s start) = []"
    by (simp add: initial_state_def deaths_reported_def issued_by_def)
  have "length (deaths_reported st) \<le> 1 \<and>
      ((monitor st = Mon_start \<or> (\<exists>us. monitor st = Mon_poll us)) \<longrightarrow> deaths_reported st = [])"
  proof (rule run_invariant [where P = "\<lambda>st. length (deaths_reported st) \<le> 1 \<and>
          ((monitor st = Mon_start \<or> (\<exists>us. monitor st = Mon_poll us)) \<longrightarrow>
             deaths_reported st = [])", OF _ _ assms])
    show "length (deaths_reported (initial_state s start)) \<le> 1 \<and>
      ((monitor (initial_state s start) = Mon_start \<or>
        (\<exists>us. monitor (initial_state s start) = Mon_poll us)) \<longrightarrow>
       deaths_reported (initial_state s start) = [])"
      using none by simp
  qed (rule one_death_step)
  then show ?thesis by blast
qed

subsection \<open>The dead branch\<close>

lemma static_line: "fst (static x) = fst x"
  by (cases x rule: static.cases) simp_all

lemma source_code_lines:
  "x \<in> set (source_code s philo) \<Longrightarrow> fst x \<notin> {38, 39, 40, 41}"
  by (auto simp: source_code_def lifecycle_entry_def lifecycle_body_def philosopher_eat_def
      acquire_forks_def release_forks_def split: if_splits)

lemma pending_lines:
  assumes "run cs (initial_state s start) = Next st" "i < length (threads st)"
    "i < length (philosophers (sim st))" "x \<in> set (pending (threads st ! i))"
  shows "fst x \<notin> {38, 39, 40, 41}"
proof -
  from run_from_source [OF assms(1)] assms(2,3,4)
  have "static x \<in> set (source_code (sim st) (philosophers (sim st) ! i))"
    by (auto simp: from_source_def)
  then have "fst (static x) \<notin> {38, 39, 40, 41}" by (rule source_code_lines)
  then show ?thesis unfolding static_line .
qed

subsection \<open>Leaving the wait\<close>

lemma run_other_thread:
  "run cs st = Next st' \<Longrightarrow> Run_philo i \<notin> set cs \<Longrightarrow> threads st' ! i = threads st ! i"
proof (induction cs arbitrary: st)
  case Nil
  then show ?case by simp
next
  case (Cons c cs)
  from Cons.prems(1) obtain st1 where step: "step c st = Next st1" and rest: "run cs st1 = Next st'"
    by (auto simp: then_do_Next)
  from Cons.prems(2) have "c \<noteq> Run_philo i" "Run_philo i \<notin> set cs" by auto
  with Cons.IH [OF rest] step_other_thread [OF step] show ?case by simp
qed

lemma step_clock:
  assumes "step c st = Next st'"
  shows "clock st \<le> clock st'"
proof (cases c)
  case (Run_philo i)
  with assms show ?thesis by (simp add: philo_step_frame)
next
  case Run_monitor
  with assms have "monitor_step st = Next st'" by simp
  then show ?thesis by (cases rule: monitor_stepE) auto
next
  case (Tick ms)
  with assms show ?thesis by (auto split: if_splits)
qed

lemma run_clock:
  "run cs st = Next st' \<Longrightarrow> clock st \<le> clock st'"
proof (induction cs arbitrary: st)
  case Nil
  then show ?case by simp
next
  case (Cons c cs)
  from Cons.prems obtain st1 where "step c st = Next st1" "run cs st1 = Next st'"
    by (auto simp: then_do_Next)
  with Cons.IH [of st1] step_clock [of c st st1] show ?case by simp
qed

lemma spend_loop_exit:
  assumes "philo_step i st = Next st'" "threads st ! i = Running ((l, Spend_loop t d) # rest)"
    "simulation_ended (sim st)"
  shows "threads st' ! i = Running rest"
  using assms(1)
proof (cases rule: philo_stepE)
  case (instr l' a rest')
  with assms(2,3) show ?thesis
    by (auto simp: is_simulation_finished_def continue_def split: if_splits)
qed (use assms(2) in simp_all)

lemma spend_body_exit:
  assumes "philo_step i st = Next st'" "threads st ! i = Running ((l, Spend_body t d) # rest)"
    "d \<le> clock st - t"
  shows "threads st' ! i = Running rest"
  using assms(1)
proof (cases rule: philo_stepE)
  case (instr l' a rest')
  with assms(2,3) show ?thesis
    by (auto simp: continue_def Let_def split: if_splits)
qed (use assms(2) in simp_all)

lemma spend_stays:
  assumes "philo_step i st = Next st'"
    "threads st ! i = Running ((l, Spend_loop t d) # rest) \<or>
     threads st ! i = Running ((l, Spend_body t d) # rest)"
  shows "threads st' ! i = Running rest \<or>
         threads st ! i = Running ((l, Spend_loop t d) # rest) \<and>
           threads st' ! i = Running ((l, Spend_body t d) # rest) \<or>
         threads st ! i = Running ((l, Spend_body t d) # rest) \<and>
           threads st' ! i = Running ((l, Spend_loop t d) # rest)"
  using assms(1)
proof (cases rule: philo_stepE)
  case (instr l' a rest')
  with assms(2) show ?thesis
    by (auto simp: is_simulation_finished_def continue_def Let_def split: if_splits)
qed (use assms(2) in auto)

lemma prompt_exit:
  assumes waits: "threads st ! i = Running ((l, Spend_loop t d) # rest) \<or>
      threads st ! i = Running ((l, Spend_body t d) # rest)"
    and due: "simulation_ended (sim st) \<or> d \<le> clock st - t"
    and first: "philo_step i st = Next st1"
    and others: "Run_philo i \<notin> set cs" "run cs st1 = Next st2"
    and second: "philo_step i st2 = Next st3"
  shows "threads st1 ! i = Running rest \<or> threads st3 ! i = Running rest"
proof (cases "threads st1 ! i = Running rest")
  case True
  then show ?thesis by simp
next
  case False
  have same: "threads st2 ! i = threads st1 ! i"
    using others(2,1) by (rule run_other_thread)
  have flag: "simulation_ended (sim st) \<Longrightarrow> simulation_ended (sim st2)"
    using run_keeps_flag [OF others(2)] philo_step_frame(1) [OF first] by simp
  have time: "clock st \<le> clock st2"
    using run_clock [OF others(2)] philo_step_frame(8) [OF first] by simp
  from spend_stays [OF first waits] False
  consider "threads st ! i = Running ((l, Spend_loop t d) # rest)"
      "threads st1 ! i = Running ((l, Spend_body t d) # rest)"
    | "threads st ! i = Running ((l, Spend_body t d) # rest)"
      "threads st1 ! i = Running ((l, Spend_loop t d) # rest)"
    by blast
  then have "threads st3 ! i = Running rest"
  proof cases
    case 1
    with spend_loop_exit [OF first 1(1)] False have "\<not> simulation_ended (sim st)" by blast
    with due have "d \<le> clock st - t" by simp
    with time have "d \<le> clock st2 - t" by simp
    with spend_body_exit [OF second] 1(2) same show ?thesis by simp
  next
    case 2
    with spend_body_exit [OF first 2(1)] False have "\<not> d \<le> clock st - t" by blast
    with due flag have "simulation_ended (sim st2)" by simp
    with spend_loop_exit [OF second] 2(2) same show ?thesis by simp
  qed
  then show ?thesis by simp
qed

subsection \<open>Taking and releasing the forks\<close>

lemma odd_c_mod: "0 < a \<Longrightarrow> c_mod a 2 = 1 \<longleftrightarrow> odd a"
  by (simp add: c_mod_nonneg odd_iff_mod_2_eq_one)

lemma continue_simps [simp]:
  "sim (continue i rest st) = sim st"
  "events (continue i rest st) = events st"
  "clock (continue i rest st) = clock st"
  "monitor (continue i rest st) = monitor st"
  "threads (continue i rest st) = (threads st)[i := Running rest]"
  by (simp_all add: continue_def)

lemma step_lock_fork:
  assumes "i < length (threads st)" "i < length (philosophers (sim st))"
    "threads st ! i = Running ((l, Lock (Fork_mutex k)) # rest)"
    "0 \<le> k" "nat k < length (fork_mutexes (sim st))"
  shows "philo_step i st =
      (if fork_mutexes (sim st) ! nat k = None
       then Next (continue i rest
              (st\<lparr>sim := (sim st)\<lparr>fork_mutexes :=
                 (fork_mutexes (sim st))[nat k := Some (Philo i)]\<rparr>\<rparr>))
       else Blocked)"
  using assms by (simp add: philo_step_def)


lemma step_print:
  assumes "i < length (threads st)" "i < length (philosophers (sim st))"
    "threads st ! i = Running ((l, Print msg flag) # rest)"
  shows "philo_step i st =
      Next (continue i rest
        (st\<lparr>events := events st @
           [(Philo i, Printed (philo_id (philosophers (sim st) ! i)) msg flag)]\<rparr>))"
  using assms by (simp add: philo_step_def)

lemma run_snoc_step:
  "run cs st = Next st1 \<Longrightarrow> run (cs @ [c]) st = step c st1"
proof (induction cs arbitrary: st)
  case Nil
  then show ?case by (simp add: then_do_def split: outcome.splits)
next
  case (Cons a cs)
  then show ?case by (auto simp: then_do_def split: outcome.splits)
qed

lemma lock_print_lock_print:
  assumes i: "i < length (threads st)" "i < length (philosophers (sim st))"
    and code: "threads st ! i =
      Running ((l1, Lock (Fork_mutex a)) # (l2, Print m1 f1) #
               (l3, Lock (Fork_mutex b)) # (l4, Print m2 f2) # rest)"
    and range: "0 \<le> a" "nat a < length (fork_mutexes (sim st))"
      "0 \<le> b" "nat b < length (fork_mutexes (sim st))" "a \<noteq> b"
    and free: "fork_mutexes (sim st) ! nat a = None"
  shows "run [Run_philo i, Run_philo i] st =
        Next (continue i ((l3, Lock (Fork_mutex b)) # (l4, Print m2 f2) # rest)
          (st\<lparr>sim := (sim st)\<lparr>fork_mutexes :=
                 (fork_mutexes (sim st))[nat a := Some (Philo i)]\<rparr>,
              events := events st @
                [(Philo i, Printed (philo_id (philosophers (sim st) ! i)) m1 f1)]\<rparr>))"
    and "run [Run_philo i, Run_philo i, Run_philo i] st =
        (if fork_mutexes (sim st) ! nat b = None
         then Next (continue i ((l4, Print m2 f2) # rest)
          (st\<lparr>sim := (sim st)\<lparr>fork_mutexes :=
                 (fork_mutexes (sim st))[nat a := Some (Philo i), nat b := Some (Philo i)]\<rparr>,
              events := events st @
                [(Philo i, Printed (philo_id (philosophers (sim st) ! i)) m1 f1)]\<rparr>))
         else Blocked)"
    and "fork_mutexes (sim st) ! nat b = None \<Longrightarrow>
      run [Run_philo i, Run_philo i, Run_philo i, Run_philo i] st =
        Next (continue i rest
          (st\<lparr>sim := (sim st)\<lparr>fork_mutexes :=
                 (fork_mutexes (sim st))[nat a := Some (Philo i), nat b := Some (Philo i)]\<rparr>,
              events := events st @
                [(Philo i, Printed (philo_id (philosophers (sim st) ! i)) m1 f1),
                 (Philo i, Printed (philo_id (philosophers (sim st) ! i)) m2 f2)]\<rparr>))"
proof -
  let ?p = "philo_id (philosophers (sim st) ! i)"
  define st1 where "st1 = continue i ((l2, Print m1 f1) # (l3, Lock (Fork_mutex b)) # (l4, Print m2 f2) # rest)
      (st\<lparr>sim := (sim st)\<lparr>fork_mutexes := (fork_mutexes (sim st))[nat a := Some (Philo i)]\<rparr>\<rparr>)"
  define st2 where "st2 = continue i ((l3, Lock (Fork_mutex b)) # (l4, Print m2 f2) # rest)
          (st\<lparr>sim := (sim st)\<lparr>fork_mutexes :=
                 (fork_mutexes (sim st))[nat a := Some (Philo i)]\<rparr>,
              events := events st @ [(Philo i, Printed ?p m1 f1)]\<rparr>)"
  define st3 where "st3 = continue i ((l4, Print m2 f2) # rest)
          (st\<lparr>sim := (sim st)\<lparr>fork_mutexes :=
                 (fork_mutexes (sim st))[nat a := Some (Philo i), nat b := Some (Philo i)]\<rparr>,
              events := events st @ [(Philo i, Printed ?p m1 f1)]\<rparr>)"
  have ne: "nat a \<noteq> nat b" using range by simp
  have s1: "philo_step i st = Next st1"
    using step_lock_fork [OF i code range(1,2)] free by (simp add: st1_def)
  have "philo_step i st1 = Next (continue i ((l3, Lock (Fork_mutex b)) # (l4, Print m2 f2) # rest)
        (st1\<lparr>events := events st1 @
           [(Philo i, Printed (philo_id (philosophers (sim st1) ! i)) m1 f1)]\<rparr>))"
    by (rule step_print) (use i in \<open>simp_all add: st1_def\<close>)
  then have s2: "philo_step i st1 = Next st2"
    by (simp add: st1_def st2_def continue_def)
  have "philo_step i st2 =
      (if fork_mutexes (sim st2) ! nat b = None
       then Next (continue i ((l4, Print m2 f2) # rest)
              (st2\<lparr>sim := (sim st2)\<lparr>fork_mutexes :=
                 (fork_mutexes (sim st2))[nat b := Some (Philo i)]\<rparr>\<rparr>))
       else Blocked)"
    by (rule step_lock_fork) (use i range in \<open>simp_all add: st2_def\<close>)
  then have s3: "philo_step i st2 =
      (if fork_mutexes (sim st) ! nat b = None then Next st3 else Blocked)"
    using ne by (simp add: st2_def st3_def continue_def)
  have "philo_step i st3 = Next (continue i rest
        (st3\<lparr>events := events st3 @
           [(Philo i, Printed (philo_id (philosophers (sim st3) ! i)) m2 f2)]\<rparr>))"
    by (rule step_print) (use i in \<open>simp_all add: st3_def\<close>)
  then have s4: "philo_step i st3 = Next (continue i rest
          (st\<lparr>sim := (sim st)\<lparr>fork_mutexes :=
                 (fork_mutexes (sim st))[nat a := Some (Philo i), nat b := Some (Philo i)]\<rparr>,
              events := events st @
                [(Philo i, Printed ?p m1 f1), (Philo i, Printed ?p m2 f2)]\<rparr>))"
    by (simp add: st3_def continue_def)
  from s1 s2 show two: "run [Run_philo i, Run_philo i] st = Next st2"
    by (simp add: then_do_def)
  from run_snoc_step [OF two, of "Run_philo i"] s3
  show three: "run [Run_philo i, Run_philo i, Run_philo i] st =
        (if fork_mutexes (sim st) ! nat b = None then Next st3 else Blocked)"
    by simp
  assume "fork_mutexes (sim st) ! nat b = None"
  with three have "run [Run_philo i, Run_philo i, Run_philo i] st = Next st3" by simp
  from run_snoc_step [OF this, of "Run_philo i"] s4
  show "run [Run_philo i, Run_philo i, Run_philo i, Run_philo i] st =
        Next (continue i rest
          (st\<lparr>sim := (sim st)\<lparr>fork_mutexes :=
                 (fork_mutexes (sim st))[nat a := Some (Philo i), nat b := Some (Philo i)]\<rparr>,
              events := events st @
                [(Philo i, Printed ?p m1 f1), (Philo i, Printed ?p m2 f2)]\<rparr>))"
    by simp
qed





lemma acquire_forks_run:
  assumes i: "i < length (threads st)" "i < length (philosophers (sim st))"
    and philo: "philosophers (sim st) ! i = philo" "0 < philo_id philo"
    and code: "threads st ! i = Running (acquire_forks philo @ rest)"
    and order: "intended_fork_order philo = [first, second]" "first \<noteq> second"
    and range: "0 \<le> first" "nat first < length (fork_mutexes (sim st))"
      "0 \<le> second" "nat second < length (fork_mutexes (sim st))"
  shows "(fork_mutexes (sim st) ! nat first \<noteq> None \<longrightarrow> philo_step i st = Blocked) \<and>
    (fork_mutexes (sim st) ! nat first = None \<longrightarrow>
       philo_step i st =
         Next (continue i (tl (acquire_forks philo) @ rest)
           (st\<lparr>sim := (sim st)\<lparr>fork_mutexes :=
              (fork_mutexes (sim st))[nat first := Some (Philo i)]\<rparr>\<rparr>)) \<and>
       run [Run_philo i, Run_philo i] st =
         Next (continue i (drop 2 (acquire_forks philo) @ rest)
           (st\<lparr>sim := (sim st)\<lparr>fork_mutexes :=
                  (fork_mutexes (sim st))[nat first := Some (Philo i)]\<rparr>,
               events := events st @
                 [(Philo i, Printed (philo_id philo)
                     (if odd (philo_id philo) then ''has taken a left fork''
                      else ''has taken a right fork'') NOT_DEAD)]\<rparr>)) \<and>
       (fork_mutexes (sim st) ! nat second \<noteq> None \<longrightarrow>
          run [Run_philo i, Run_philo i, Run_philo i] st = Blocked) \<and>
       (fork_mutexes (sim st) ! nat second = None \<longrightarrow>
          run [Run_philo i, Run_philo i, Run_philo i, Run_philo i] st =
            Next (continue i rest
              (st\<lparr>sim := (sim st)\<lparr>fork_mutexes :=
                     (fork_mutexes (sim st))
                       [nat first := Some (Philo i), nat second := Some (Philo i)]\<rparr>,
                  events := events st @
                    map (\<lambda>msg. (Philo i, Printed (philo_id philo) msg NOT_DEAD))
                      (if odd (philo_id philo)
                       then [''has taken a left fork'', ''has taken a right fork'']
                       else [''has taken a right fork'', ''has taken a left fork''])\<rparr>))))"
proof -
  obtain l1 l2 l3 l4 m1 m2 where
    shape: "acquire_forks philo =
      [(l1, Lock (Fork_mutex first)), (l2, Print m1 NOT_DEAD),
       (l3, Lock (Fork_mutex second)), (l4, Print m2 NOT_DEAD)]"
    and msgs: "m1 = (if odd (philo_id philo) then ''has taken a left fork''
                     else ''has taken a right fork'')"
      "[m1, m2] = (if odd (philo_id philo)
                   then [''has taken a left fork'', ''has taken a right fork'']
                   else [''has taken a right fork'', ''has taken a left fork''])"
    using philo(2) order(1)
    by (cases "odd (philo_id philo)")
      (simp_all add: acquire_forks_def intended_fork_order_def odd_c_mod)
  have code': "threads st ! i =
      Running ((l1, Lock (Fork_mutex first)) # (l2, Print m1 NOT_DEAD) #
               (l3, Lock (Fork_mutex second)) # (l4, Print m2 NOT_DEAD) # rest)"
    using code by (simp add: shape)
  have blocked: "philo_step i st = Blocked" if "fork_mutexes (sim st) ! nat first \<noteq> None"
    using step_lock_fork [OF i code' range(1,2)] that by simp
  {
    assume free: "fork_mutexes (sim st) ! nat first = None"
    note runs = lock_print_lock_print [OF i code' range order(2) free, unfolded philo(1)]
    have one: "philo_step i st =
         Next (continue i (tl (acquire_forks philo) @ rest)
           (st\<lparr>sim := (sim st)\<lparr>fork_mutexes :=
              (fork_mutexes (sim st))[nat first := Some (Philo i)]\<rparr>\<rparr>))"
      using step_lock_fork [OF i code' range(1,2)] free by (simp add: shape)
    have two: "run [Run_philo i, Run_philo i] st =
         Next (continue i (drop 2 (acquire_forks philo) @ rest)
           (st\<lparr>sim := (sim st)\<lparr>fork_mutexes :=
                  (fork_mutexes (sim st))[nat first := Some (Philo i)]\<rparr>,
               events := events st @ [(Philo i, Printed (philo_id philo) m1 NOT_DEAD)]\<rparr>))"
      using runs(1) by (simp add: shape)
    have three: "run [Run_philo i, Run_philo i, Run_philo i] st = Blocked"
      if "fork_mutexes (sim st) ! nat second \<noteq> None"
      using runs(2) that by simp
    have four: "run [Run_philo i, Run_philo i, Run_philo i, Run_philo i] st =
            Next (continue i rest
              (st\<lparr>sim := (sim st)\<lparr>fork_mutexes :=
                     (fork_mutexes (sim st))
                       [nat first := Some (Philo i), nat second := Some (Philo i)]\<rparr>,
                  events := events st @
                    map (\<lambda>msg. (Philo i, Printed (philo_id philo) msg NOT_DEAD)) [m1, m2]\<rparr>))"
      if "fork_mutexes (sim st) ! nat second = None"
      using runs(3) [OF that] by simp
    note one two [unfolded msgs(1)] three four [unfolded msgs(2)]
  }
  with blocked show ?thesis by blast
qed



declare continue_simps [simp del]

section \<open>The claims\<close>

text \<open>C1. No instruction of the second branch of \<^verbatim>\<open>acquire_forks\<close> (lines 38 to 41, under
  the repeated condition) is ever issued: the function never yields one, and no thread
  has one to run in any state that a run of the program reaches from its start (while the
  records are allocated). A philosopher with a positive id (the ids are 1 to
  \<^verbatim>\<open>philosopher_count\<close>) locks, with an odd id, its left fork and then its right fork, and
  with an even id its right fork and then its left fork, printing after each lock. These
  are the forks, in this order, that the policy of the spec names, also for the whole eat
  phase when there are two philosophers or more.

  The locks are taken in this order when the code runs. Let thread \<open>i\<close> be about to run
  \<^verbatim>\<open>acquire_forks\<close> for its philosopher in a state \<open>st0\<close>, and let \<open>first\<close> and \<open>second\<close> be
  the two forks in the order of the policy, two different mutexes of the array. While
  \<open>first\<close> is held the step of the thread is blocked. When it is free, the step locks it
  for the thread and changes no other mutex; after its second step the thread has printed
  the message of that fork and \<open>second\<close> is as it was; its third step is blocked while
  \<open>second\<close> is held; when \<open>second\<close> is free, four steps leave the thread holding both forks,
  with the two messages printed in the order of the locks and the code after
  \<^verbatim>\<open>acquire_forks\<close> to run.\<close>

theorem acquire_forks_order:
  "(\<forall>x \<in> set (acquire_forks philo). fst x \<notin> {38, 39, 40, 41}) \<and>
   (run cs (initial_state s0 start) = Next st \<longrightarrow>
      (\<forall>i<length (threads st). i < length (philosophers (sim st)) \<longrightarrow>
         (\<forall>x \<in> set (pending (threads st ! i)). fst x \<notin> {38, 39, 40, 41}))) \<and>
   (0 < philo_id philo \<longrightarrow>
      map snd (acquire_forks philo) =
        (if odd (philo_id philo) then
           [Lock (Fork_mutex (left_fork_index philo)), Print ''has taken a left fork'' NOT_DEAD,
            Lock (Fork_mutex (right_fork_index philo)), Print ''has taken a right fork'' NOT_DEAD]
         else
           [Lock (Fork_mutex (right_fork_index philo)), Print ''has taken a right fork'' NOT_DEAD,
            Lock (Fork_mutex (left_fork_index philo)), Print ''has taken a left fork'' NOT_DEAD]) \<and>
      locked_forks (acquire_forks philo) = intended_fork_order philo \<and>
      (2 \<le> philosopher_count s \<longrightarrow>
         locked_forks (philosopher_eat s philo) = intended_fork_order philo)) \<and>
   (i < length (threads st0) \<and> i < length (philosophers (sim st0)) \<and>
    philosophers (sim st0) ! i = philo \<and> 0 < philo_id philo \<and>
    threads st0 ! i = Running (acquire_forks philo @ rest) \<and>
    intended_fork_order philo = [first, second] \<and> first \<noteq> second \<and>
    0 \<le> first \<and> nat first < length (fork_mutexes (sim st0)) \<and>
    0 \<le> second \<and> nat second < length (fork_mutexes (sim st0)) \<longrightarrow>
      (fork_mutexes (sim st0) ! nat first \<noteq> None \<longrightarrow> philo_step i st0 = Blocked) \<and>
      (fork_mutexes (sim st0) ! nat first = None \<longrightarrow>
         philo_step i st0 =
           Next (continue i (tl (acquire_forks philo) @ rest)
             (st0\<lparr>sim := (sim st0)\<lparr>fork_mutexes :=
                (fork_mutexes (sim st0))[nat first := Some (Philo i)]\<rparr>\<rparr>)) \<and>
         run [Run_philo i, Run_philo i] st0 =
           Next (continue i (drop 2 (acquire_forks philo) @ rest)
             (st0\<lparr>sim := (sim st0)\<lparr>fork_mutexes :=
                    (fork_mutexes (sim st0))[nat first := Some (Philo i)]\<rparr>,
                 events := events st0 @
                   [(Philo i, Printed (philo_id philo)
                       (if odd (philo_id philo) then ''has taken a left fork''
                        else ''has taken a right fork'') NOT_DEAD)]\<rparr>)) \<and>
         (fork_mutexes (sim st0) ! nat second \<noteq> None \<longrightarrow>
            run [Run_philo i, Run_philo i, Run_philo i] st0 = Blocked) \<and>
         (fork_mutexes (sim st0) ! nat second = None \<longrightarrow>
            run [Run_philo i, Run_philo i, Run_philo i, Run_philo i] st0 =
              Next (continue i rest
                (st0\<lparr>sim := (sim st0)\<lparr>fork_mutexes :=
                       (fork_mutexes (sim st0))
                         [nat first := Some (Philo i), nat second := Some (Philo i)]\<rparr>,
                    events := events st0 @
                      map (\<lambda>msg. (Philo i, Printed (philo_id philo) msg NOT_DEAD))
                        (if odd (philo_id philo)
                         then [''has taken a left fork'', ''has taken a right fork'']
                         else [''has taken a right fork'', ''has taken a left fork''])\<rparr>)))))"
  (is "?dead \<and> ?never \<and> ?policy \<and> ?taken")
proof (intro conjI)
  show ?dead
    by (auto simp: acquire_forks_def split: if_splits)
  show ?never
  proof (intro impI allI ballI)
    fix i x
    assume "run cs (initial_state s0 start) = Next st" "i < length (threads st)"
      "i < length (philosophers (sim st))" "x \<in> set (pending (threads st ! i))"
    then show "fst x \<notin> {38, 39, 40, 41}" by (rule pending_lines)
  qed
  show ?policy
    by (simp add: acquire_forks_def locked_forks_def intended_fork_order_def philosopher_eat_def
        release_forks_def odd_c_mod)
  show ?taken
    by (intro impI, elim conjE, rule acquire_forks_run)
qed

theorem acquire_forks_order_witness:
  "0 < philo_id (initial_philosopher 2 0 2) \<and>
   2 \<le> philosopher_count (sim pair_at_table) \<and>
   map snd (acquire_forks (initial_philosopher 2 0 2)) =
     [Lock (Fork_mutex 0), Print ''has taken a right fork'' NOT_DEAD,
      Lock (Fork_mutex 1), Print ''has taken a left fork'' NOT_DEAD] \<and>
   locked_forks (acquire_forks (initial_philosopher 2 0 2)) = [0, 1] \<and>
   locked_forks (philosopher_eat (sim pair_at_table) (initial_philosopher 2 0 2)) = [0, 1] \<and>
   map fst (acquire_forks (initial_philosopher 2 0 2)) = [45, 46, 47, 48] \<and>
   (\<exists>st0 rest.
      run [Run_philo 1, Run_philo 1] pair_at_table = Next st0 \<and>
      philosophers (sim st0) ! 1 = initial_philosopher 2 0 2 \<and>
      threads st0 ! 1 = Running (acquire_forks (initial_philosopher 2 0 2) @ rest) \<and>
      intended_fork_order (initial_philosopher 2 0 2) = [0, 1] \<and>
      fork_mutexes (sim st0) = [None, None] \<and>
      (\<exists>st1. philo_step 1 st0 = Next st1 \<and>
         fork_mutexes (sim st1) = [Some (Philo 1), None]) \<and>
      (\<exists>st2. run [Run_philo 1, Run_philo 1] st0 = Next st2 \<and>
         fork_mutexes (sim st2) = [Some (Philo 1), None] \<and>
         issued_by (Philo 1) st2 = [Slept 1, Printed 2 ''has taken a right fork'' NOT_DEAD]) \<and>
      (\<exists>st4. run [Run_philo 1, Run_philo 1, Run_philo 1, Run_philo 1] st0 = Next st4 \<and>
         fork_mutexes (sim st4) = [Some (Philo 1), Some (Philo 1)] \<and>
         issued_by (Philo 1) st4 =
           [Slept 1, Printed 2 ''has taken a right fork'' NOT_DEAD,
            Printed 2 ''has taken a left fork'' NOT_DEAD] \<and>
         threads st4 ! 1 = Running rest))"
proof -
  let ?s = "simulation_of 3 2 2 (- 1) [initial_philosopher 2 0 1, initial_philosopher 2 0 2]"
  let ?p = "initial_philosopher 2 0 2"
  let ?rest = "[(138, Print ''is eating'' NOT_DEAD), (139, Lock Data_mutex),
     (140, Set_last_meal_time), (141, Inc_meals_eaten), (142, Unlock Data_mutex),
     (143, Spend_time 2), (64, Unlock (Fork_mutex 1)), (65, Unlock (Fork_mutex 0)),
     (175, Break_if_finished), (177, Print ''is sleeping'' NOT_DEAD), (178, Spend_time 2),
     (179, Break_if_finished), (181, Print ''is thinking'' NOT_DEAD)]"
  define st0 where "st0 =
    \<lparr>sim = ?s, threads = [Running [], Running (acquire_forks ?p @ ?rest)],
     monitor = Mon_start, clock = 0, events = [(Philo 1, Slept 1)]\<rparr>"
  have id: "0 < philo_id ?p"
    by (simp add: initial_philosopher_def)
  have two: "2 \<le> philosopher_count (sim pair_at_table)"
    by (simp add: pair_at_table_def initial_state_def simulation_of_def)
  have order: "intended_fork_order ?p = [0, 1]"
    by (simp add: intended_fork_order_def initial_philosopher_def c_mod_def c_div_def)
  note inst = acquire_forks_order [where philo = ?p and s = "sim pair_at_table" and st0 = st0
      and i = 1 and rest = ?rest and first = 0 and second = 1]
  from inst id two order
  have "map snd (acquire_forks ?p) =
     [Lock (Fork_mutex 0), Print ''has taken a right fork'' NOT_DEAD,
      Lock (Fork_mutex 1), Print ''has taken a left fork'' NOT_DEAD]"
    "locked_forks (acquire_forks ?p) = [0, 1]"
    "locked_forks (philosopher_eat (sim pair_at_table) ?p) = [0, 1]"
    by (simp_all add: initial_philosopher_def c_mod_def c_div_def)
  moreover have "map fst (acquire_forks ?p) = [45, 46, 47, 48]"
    by (simp add: acquire_forks_def initial_philosopher_def c_mod_def c_div_def)
  moreover have reach: "run [Run_philo 1, Run_philo 1] pair_at_table = Next st0"
    by (simp add: pair_at_table_def st0_def evaluation)
  moreover have here: "1 < length (threads st0)" "1 < length (philosophers (sim st0))"
      "philosophers (sim st0) ! 1 = ?p" "threads st0 ! 1 = Running (acquire_forks ?p @ ?rest)"
      "(0::int) \<noteq> 1" "(0::int) \<le> 0" "nat 0 < length (fork_mutexes (sim st0))"
      "(0::int) \<le> 1" "nat 1 < length (fork_mutexes (sim st0))"
    and free: "fork_mutexes (sim st0) ! nat 0 = None" "fork_mutexes (sim st0) ! nat 1 = None"
    and forks: "fork_mutexes (sim st0) = [None, None]"
    by (simp_all add: st0_def simulation_of_def)
  moreover from inst id order here free
  have "philo_step 1 st0 =
      Next (continue 1 (tl (acquire_forks ?p) @ ?rest)
        (st0\<lparr>sim := (sim st0)\<lparr>fork_mutexes :=
           (fork_mutexes (sim st0))[nat 0 := Some (Philo 1)]\<rparr>\<rparr>))"
    by blast
  then have "\<exists>st1. philo_step 1 st0 = Next st1 \<and>
      fork_mutexes (sim st1) = [Some (Philo 1), None]"
    by (simp add: forks continue_def)
  moreover from inst id order here free
  have "run [Run_philo 1, Run_philo 1] st0 =
      Next (continue 1 (drop 2 (acquire_forks ?p) @ ?rest)
        (st0\<lparr>sim := (sim st0)\<lparr>fork_mutexes :=
               (fork_mutexes (sim st0))[nat 0 := Some (Philo 1)]\<rparr>,
            events := events st0 @
              [(Philo 1, Printed (philo_id ?p)
                  (if odd (philo_id ?p) then ''has taken a left fork''
                   else ''has taken a right fork'') NOT_DEAD)]\<rparr>))"
    by blast
  then have "\<exists>st2. run [Run_philo 1, Run_philo 1] st0 = Next st2 \<and>
      fork_mutexes (sim st2) = [Some (Philo 1), None] \<and>
      issued_by (Philo 1) st2 = [Slept 1, Printed 2 ''has taken a right fork'' NOT_DEAD]"
    by (simp add: continue_def issued_by_def st0_def simulation_of_def initial_philosopher_def)
  moreover from inst id order here free
  have "run [Run_philo 1, Run_philo 1, Run_philo 1, Run_philo 1] st0 =
      Next (continue 1 ?rest
        (st0\<lparr>sim := (sim st0)\<lparr>fork_mutexes :=
               (fork_mutexes (sim st0))[nat 0 := Some (Philo 1), nat 1 := Some (Philo 1)]\<rparr>,
            events := events st0 @
              map (\<lambda>msg. (Philo 1, Printed (philo_id ?p) msg NOT_DEAD))
                (if odd (philo_id ?p)
                 then [''has taken a left fork'', ''has taken a right fork'']
                 else [''has taken a right fork'', ''has taken a left fork''])\<rparr>))"
    by blast
  then have "\<exists>st4. run [Run_philo 1, Run_philo 1, Run_philo 1, Run_philo 1] st0 = Next st4 \<and>
      fork_mutexes (sim st4) = [Some (Philo 1), Some (Philo 1)] \<and>
      issued_by (Philo 1) st4 =
        [Slept 1, Printed 2 ''has taken a right fork'' NOT_DEAD,
         Printed 2 ''has taken a left fork'' NOT_DEAD] \<and>
      threads st4 ! 1 = Running ?rest"
    by (simp add: continue_def issued_by_def st0_def simulation_of_def initial_philosopher_def)
  ultimately show ?thesis using id two order by blast
qed

text \<open>C2. With the records in id order and the state lock free: if some philosopher has
  \<open>now - last_meal_time \<ge> time_to_die\<close>, the death check sets the flag and returns the id
  of the starving philosopher with the lowest id, and the evaluation prints exactly one
  event, "died", for that philosopher, and returns \<^verbatim>\<open>TRUE\<close>; if no philosopher starves,
  the death check changes nothing and returns \<^verbatim>\<open>FALSE\<close>, and the evaluation prints
  nothing. In every state that a run of the program reaches from its start the monitor
  has printed at most once.\<close>

theorem death_check_lowest_id:
  assumes "records_allocated s" and "data_mutex s = None" and "ids_in_order s"
  shows "((\<exists>i<length (philosophers s). starving s now i) \<longrightarrow>
            (\<exists>k<length (philosophers s).
                starving s now k \<and>
                (\<forall>j<length (philosophers s). starving s now j \<longrightarrow>
                   philo_id (philosophers s ! k) \<le> philo_id (philosophers s ! j)) \<and>
                check_for_death s now =
                  Next (s\<lparr>simulation_ended := True\<rparr>, philo_id (philosophers s ! k)) \<and>
                evaluate_simulation_status s now =
                  Next (s\<lparr>simulation_ended := True\<rparr>,
                        [Printed (philo_id (philosophers s ! k)) ''died'' TRUE], TRUE))) \<and>
         (\<not> (\<exists>i<length (philosophers s). starving s now i) \<longrightarrow>
            check_for_death s now = Next (s, FALSE) \<and>
            (\<exists>s' r. evaluate_simulation_status s now = Next (s', [], r))) \<and>
         (run cs (initial_state s0 start) = Next st \<longrightarrow> length (deaths_reported st) \<le> 1)"
proof (intro conjI impI)
  assume "run cs (initial_state s0 start) = Next st"
  then show "length (deaths_reported st) \<le> 1" by (rule one_death_run)
next
  assume some: "\<exists>i<length (philosophers s). starving s now i"
  define k where "k = (LEAST i. i < length (philosophers s) \<and> starving s now i)"
  from some have k: "k < length (philosophers s) \<and> starving s now k"
    unfolding k_def by (rule LeastI_ex)
  have least: "\<forall>j<k. \<not> starving s now j"
  proof (intro allI impI notI)
    fix j
    assume "j < k" "starving s now j"
    with k have "j < length (philosophers s) \<and> starving s now j" by simp
    then have "k \<le> j" unfolding k_def by (rule Least_le)
    with \<open>j < k\<close> show False by simp
  qed
  have lowest: "\<forall>j<length (philosophers s). starving s now j \<longrightarrow>
      philo_id (philosophers s ! k) \<le> philo_id (philosophers s ! j)"
  proof (intro allI impI)
    fix j
    assume j: "j < length (philosophers s)" "starving s now j"
    with least have "\<not> j < k" by blast
    then have "k \<le> j" by simp
    then show "philo_id (philosophers s ! k) \<le> philo_id (philosophers s ! j)"
      using ids_in_order_nth [OF assms(3) j(1)] ids_in_order_nth [OF assms(3) conjunct1 [OF k]]
      by simp
  qed
  have id_k: "philo_id (philosophers s ! k) = int k + 1"
    using ids_in_order_nth [OF assms(3) conjunct1 [OF k]] .
  have death: "check_for_death s now =
      Next (s\<lparr>simulation_ended := True\<rparr>, philo_id (philosophers s ! k))"
    using check_for_death_first [OF assms(1) conjunct1 [OF k] conjunct2 [OF k] least]
    by (simp only: id_k)
  have "evaluate_simulation_status s now =
      Next (s\<lparr>simulation_ended := True\<rparr>, [Printed (philo_id (philosophers s ! k)) ''died'' TRUE], TRUE)"
    by (rule evaluate_death [OF assms(1,2) conjunct1 [OF k] conjunct2 [OF k] least])
  with death k lowest show "\<exists>k<length (philosophers s).
                starving s now k \<and>
                (\<forall>j<length (philosophers s). starving s now j \<longrightarrow>
                   philo_id (philosophers s ! k) \<le> philo_id (philosophers s ! j)) \<and>
                check_for_death s now =
                  Next (s\<lparr>simulation_ended := True\<rparr>, philo_id (philosophers s ! k)) \<and>
                evaluate_simulation_status s now =
                  Next (s\<lparr>simulation_ended := True\<rparr>,
                        [Printed (philo_id (philosophers s ! k)) ''died'' TRUE], TRUE)"
    by (intro exI [of _ k]) (simp only: simp_thms)
next
  assume "\<not> (\<exists>i<length (philosophers s). starving s now i)"
  then have none: "\<forall>j<length (philosophers s). \<not> starving s now j" by blast
  show "check_for_death s now = Next (s, FALSE)"
    using assms(1) none by (rule check_for_death_none)
next
  assume "\<not> (\<exists>i<length (philosophers s). starving s now i)"
  then have none: "\<forall>j<length (philosophers s). \<not> starving s now j" by blast
  note eq = evaluate_no_death [OF assms(1,2) none]
  show "\<exists>s' r. evaluate_simulation_status s now = Next (s', [], r)"
  proof (cases "required_meals s \<noteq> - 1 \<and> (\<forall>philo\<in>set (philosophers s). satisfied s philo)")
    case True
    with eq have "evaluate_simulation_status s now = Next (s\<lparr>simulation_ended := True\<rparr>, [], TRUE)"
      by simp
    then show ?thesis by blast
  next
    case False
    with eq have "evaluate_simulation_status s now = Next (s, [], FALSE)"
      by simp
    then show ?thesis by blast
  qed
qed

theorem death_check_lowest_id_witness:
  "records_allocated three_at_table \<and> data_mutex three_at_table = None \<and>
   ids_in_order three_at_table \<and>
   \<not> starving three_at_table 5 0 \<and> starving three_at_table 5 1 \<and> starving three_at_table 5 2 \<and>
   check_for_death three_at_table 5 = Next (three_at_table\<lparr>simulation_ended := True\<rparr>, 2) \<and>
   evaluate_simulation_status three_at_table 5 =
     Next (three_at_table\<lparr>simulation_ended := True\<rparr>, [Printed 2 ''died'' TRUE], TRUE)"
proof -
  let ?s = "three_at_table"
  note ps = three_at_table_simps
  have h1: "records_allocated ?s"
    by (simp add: records_allocated_def ps)
  have h2: "data_mutex ?s = None"
    by (simp add: ps)
  have h3: "ids_in_order ?s"
    by (simp add: ids_in_order_def ps initial_philosopher_def ate_def)
  have st: "\<not> starving ?s 5 0" "starving ?s 5 1" "starving ?s 5 2"
    by (simp_all add: starving_def ps initial_philosopher_def ate_def)
  have ex: "\<exists>i<length (philosophers ?s). starving ?s 5 i"
    using st(2) by (intro exI [of _ 1]) (simp add: ps)
  from death_check_lowest_id [OF h1 h2 h3, of 5, THEN conjunct1, THEN mp, OF ex]
  have "\<exists>k<length (philosophers ?s).
          starving ?s 5 k \<and>
          (\<forall>j<length (philosophers ?s). starving ?s 5 j \<longrightarrow>
             philo_id (philosophers ?s ! k) \<le> philo_id (philosophers ?s ! j)) \<and>
          check_for_death ?s 5 = Next (?s\<lparr>simulation_ended := True\<rparr>, philo_id (philosophers ?s ! k)) \<and>
          evaluate_simulation_status ?s 5 =
            Next (?s\<lparr>simulation_ended := True\<rparr>, [Printed (philo_id (philosophers ?s ! k)) ''died'' TRUE], TRUE)" .
  then obtain k where k: "k < length (philosophers ?s)" "starving ?s 5 k"
      "\<forall>j<length (philosophers ?s). starving ?s 5 j \<longrightarrow>
          philo_id (philosophers ?s ! k) \<le> philo_id (philosophers ?s ! j)"
      "check_for_death ?s 5 = Next (?s\<lparr>simulation_ended := True\<rparr>, philo_id (philosophers ?s ! k))"
      "evaluate_simulation_status ?s 5 =
         Next (?s\<lparr>simulation_ended := True\<rparr>, [Printed (philo_id (philosophers ?s ! k)) ''died'' TRUE], TRUE)"
    by blast
  have "philo_id (philosophers ?s ! k) = int k + 1"
    using h3 k(1) by (rule ids_in_order_nth)
  moreover have "philo_id (philosophers ?s ! k) \<le> philo_id (philosophers ?s ! 1)"
    using k(3) [THEN spec, of 1] st(2) by (simp add: ps)
  moreover have "philo_id (philosophers ?s ! 1) = 2"
    by (simp add: ps initial_philosopher_def)
  moreover have "k \<noteq> 0"
    using k(2) st(1) by (cases "k = 0") simp_all
  ultimately have "k = 1" by simp
  with k(4,5) have "check_for_death ?s 5 = Next (?s\<lparr>simulation_ended := True\<rparr>, 2)"
    "evaluate_simulation_status ?s 5 =
       Next (?s\<lparr>simulation_ended := True\<rparr>, [Printed 2 ''died'' TRUE], TRUE)"
    by (simp_all add: ps initial_philosopher_def)
  with h1 h2 h3 st show ?thesis by simp
qed

text \<open>C3. With \<^verbatim>\<open>required_meals\<close> at -1 the satisfaction check changes nothing and returns
  \<^verbatim>\<open>FALSE\<close>. With any other value it sets the flag and returns \<^verbatim>\<open>TRUE\<close> exactly when
  every record has \<open>meals_eaten \<ge> required_meals\<close>. The evaluation returns \<^verbatim>\<open>TRUE\<close>
  without printing a death exactly when \<^verbatim>\<open>required_meals\<close> is set, every philosopher has
  eaten that often and the death check found no starving philosopher; the flag is then
  set and nothing else has changed.\<close>

theorem satisfaction_check:
  assumes "records_allocated s" and "data_mutex s = None"
  shows "(required_meals s = - 1 \<longrightarrow> check_all_philosophers_satisfied s = Next (s, FALSE)) \<and>
         (required_meals s \<noteq> - 1 \<longrightarrow>
            check_all_philosophers_satisfied s =
              (if \<forall>philo \<in> set (philosophers s). meals_eaten philo \<ge> required_meals s
               then Next (s\<lparr>simulation_ended := True\<rparr>, TRUE) else Next (s, FALSE))) \<and>
         ((\<exists>s'. evaluate_simulation_status s now = Next (s', [], TRUE)) \<longleftrightarrow>
            required_meals s \<noteq> - 1 \<and>
            (\<forall>philo \<in> set (philosophers s). meals_eaten philo \<ge> required_meals s) \<and>
            \<not> (\<exists>i<length (philosophers s). starving s now i)) \<and>
         ((\<exists>s'. evaluate_simulation_status s now = Next (s', [], TRUE)) \<longrightarrow>
            evaluate_simulation_status s now = Next (s\<lparr>simulation_ended := True\<rparr>, [], TRUE))"
proof -
  note check = check_all_philosophers_satisfied_eq [OF assms(1)]
  have unset: "required_meals s = - 1 \<longrightarrow> check_all_philosophers_satisfied s = Next (s, FALSE)"
    using check by simp
  have set: "required_meals s \<noteq> - 1 \<longrightarrow>
            check_all_philosophers_satisfied s =
              (if \<forall>philo \<in> set (philosophers s). meals_eaten philo \<ge> required_meals s
               then Next (s\<lparr>simulation_ended := True\<rparr>, TRUE) else Next (s, FALSE))"
    using check by (simp add: satisfied_def)
  have starved: "\<not> (\<exists>s'. evaluate_simulation_status s now = Next (s', [], TRUE))"
    if "\<exists>i<length (philosophers s). starving s now i"
  proof -
    define k where "k = (LEAST i. i < length (philosophers s) \<and> starving s now i)"
    from that have k: "k < length (philosophers s) \<and> starving s now k"
      unfolding k_def by (rule LeastI_ex)
    have least: "\<forall>j<k. \<not> starving s now j"
    proof (intro allI impI notI)
      fix j
      assume "j < k" "starving s now j"
      with k have "j < length (philosophers s) \<and> starving s now j" by simp
      then have "k \<le> j" unfolding k_def by (rule Least_le)
      with \<open>j < k\<close> show False by simp
    qed
    show ?thesis
      by (simp add: evaluate_death [OF assms(1,2) conjunct1 [OF k] conjunct2 [OF k] least])
  qed
  have fed: "evaluate_simulation_status s now =
           (if required_meals s \<noteq> - 1 \<and> (\<forall>philo \<in> set (philosophers s). meals_eaten philo \<ge> required_meals s)
            then Next (s\<lparr>simulation_ended := True\<rparr>, [], TRUE) else Next (s, [], FALSE))"
    if "\<not> (\<exists>i<length (philosophers s). starving s now i)"
  proof -
    from that have none: "\<forall>j<length (philosophers s). \<not> starving s now j" by blast
    show ?thesis
      using evaluate_no_death [OF assms(1,2) none] by (simp add: satisfied_def)
  qed
  have iff: "(\<exists>s'. evaluate_simulation_status s now = Next (s', [], TRUE)) \<longleftrightarrow>
            required_meals s \<noteq> - 1 \<and>
            (\<forall>philo \<in> set (philosophers s). meals_eaten philo \<ge> required_meals s) \<and>
            \<not> (\<exists>i<length (philosophers s). starving s now i)"
  proof (cases "\<exists>i<length (philosophers s). starving s now i")
    case True
    with starved show ?thesis by blast
  next
    case False
    show ?thesis
      using False by (simp add: fed [OF False] TRUE_def FALSE_def)
  qed
  have result: "(\<exists>s'. evaluate_simulation_status s now = Next (s', [], TRUE)) \<longrightarrow>
            evaluate_simulation_status s now = Next (s\<lparr>simulation_ended := True\<rparr>, [], TRUE)"
  proof
    assume ex: "\<exists>s'. evaluate_simulation_status s now = Next (s', [], TRUE)"
    with starved have none: "\<not> (\<exists>i<length (philosophers s). starving s now i)" by blast
    from ex iff have "required_meals s \<noteq> - 1 \<and>
        (\<forall>philo \<in> set (philosophers s). meals_eaten philo \<ge> required_meals s)" by blast
    then show "evaluate_simulation_status s now = Next (s\<lparr>simulation_ended := True\<rparr>, [], TRUE)"
      by (simp add: fed [OF none])
  qed
  from unset set iff result show ?thesis by (intro conjI)
qed

theorem satisfaction_check_witness:
  "records_allocated three_fed \<and> data_mutex three_fed = None \<and>
   required_meals three_fed = 1 \<and>
   map meals_eaten (philosophers three_fed) = [1, 1, 1] \<and>
   check_all_philosophers_satisfied three_fed = Next (three_fed\<lparr>simulation_ended := True\<rparr>, TRUE) \<and>
   evaluate_simulation_status three_fed 5 = Next (three_fed\<lparr>simulation_ended := True\<rparr>, [], TRUE)"
proof -
  let ?s = "three_fed"
  note ps = three_fed_simps
  have h1: "records_allocated ?s"
    by (simp add: records_allocated_def ps)
  have h2: "data_mutex ?s = None"
    by (simp add: ps)
  have meals: "map meals_eaten (philosophers ?s) = [1, 1, 1]"
    by (simp add: ps ate_def initial_philosopher_def)
  have all: "\<forall>philo \<in> set (philosophers ?s). meals_eaten philo \<ge> required_meals ?s"
    by (simp add: ps ate_def initial_philosopher_def)
  have none: "\<not> (\<exists>i<length (philosophers ?s). starving ?s 5 i)"
  proof (intro notI, elim exE conjE)
    fix i
    assume i: "i < length (philosophers ?s)" and st: "starving ?s 5 i"
    from i have "i = 0 \<or> i = 1 \<or> i = 2" by (auto simp: ps)
    with st show False by (auto simp: ps starving_def ate_def initial_philosopher_def)
  qed
  note inst = satisfaction_check [OF h1 h2, of 5]
  have chk: "check_all_philosophers_satisfied ?s = Next (?s\<lparr>simulation_ended := True\<rparr>, TRUE)"
    using inst [THEN conjunct2, THEN conjunct1] all by (simp add: ps)
  have "\<exists>s'. evaluate_simulation_status ?s 5 = Next (s', [], TRUE)"
    using inst [THEN conjunct2, THEN conjunct2, THEN conjunct1] all none by (simp add: ps)
  with inst [THEN conjunct2, THEN conjunct2, THEN conjunct2]
  have "evaluate_simulation_status ?s 5 = Next (?s\<lparr>simulation_ended := True\<rparr>, [], TRUE)"
    by (rule mp)
  with h1 h2 meals chk show ?thesis by (simp add: ps)
qed

text \<open>C4. \<^verbatim>\<open>philo_spend_time(philo, d)\<close>, run by thread \<open>i\<close>. It first reads the clock as its
  start time \<open>t\<close>. At the loop condition it reads the flag (under the state lock): if
  the flag is true it returns, otherwise it enters the loop body. In the body it reads
  the clock: if \<open>d\<close> milliseconds or more have passed since \<open>t\<close> it returns, otherwise it
  calls \<^verbatim>\<open>usleep\<close> with 1000 when more than 10 ms remain, 100 when more than 1 ms
  remains, 10 otherwise, and is back at the loop condition. Whatever step the program
  takes while the thread is in the wait, the thread has left the wait after it exactly
  when the step was its own and it read the flag as true at the loop condition or found
  the time up in the body; otherwise it is still in this wait. Once the flag is set or
  the time is up, the second step of the thread at the latest leaves the wait, whatever
  the other threads do in between.\<close>

theorem responsive_wait:
  assumes "i < length (threads st)" "i < length (philosophers (sim st))"
  shows "(threads st ! i = Running ((l, Spend_time d) # rest) \<longrightarrow>
            philo_step i st = Next (continue i ((l, Spend_loop (clock st) d) # rest) st)) \<and>
         (threads st ! i = Running ((l, Spend_loop t d) # rest) \<longrightarrow>
            philo_step i st =
              (if data_mutex (sim st) \<noteq> None then Blocked
               else if simulation_ended (sim st) then Next (continue i rest st)
               else Next (continue i ((l, Spend_body t d) # rest) st))) \<and>
         (threads st ! i = Running ((l, Spend_body t d) # rest) \<longrightarrow>
            philo_step i st =
              (if d \<le> clock st - t then Next (continue i rest st)
               else Next (continue i ((l, Spend_loop t d) # rest)
                 (st\<lparr>events := events st @
                    [(Philo i, Slept (if d - (clock st - t) > 10 then 1000
                                      else if d - (clock st - t) > 1 then 100 else 10))]\<rparr>)))) \<and>
         ((threads st ! i = Running ((l, Spend_loop t d) # rest) \<or>
           threads st ! i = Running ((l, Spend_body t d) # rest)) \<longrightarrow>
          step c st = Next st' \<longrightarrow>
            (threads st' ! i = Running rest \<longleftrightarrow>
               c = Run_philo i \<and>
               (threads st ! i = Running ((l, Spend_loop t d) # rest) \<and> simulation_ended (sim st) \<or>
                threads st ! i = Running ((l, Spend_body t d) # rest) \<and> d \<le> clock st - t)) \<and>
            (threads st' ! i = Running rest \<or>
             threads st' ! i = Running ((l, Spend_loop t d) # rest) \<or>
             threads st' ! i = Running ((l, Spend_body t d) # rest))) \<and>
         ((threads st ! i = Running ((l, Spend_loop t d) # rest) \<or>
           threads st ! i = Running ((l, Spend_body t d) # rest)) \<longrightarrow>
          (simulation_ended (sim st) \<or> d \<le> clock st - t) \<longrightarrow>
          philo_step i st = Next st1 \<longrightarrow> Run_philo i \<notin> set others \<longrightarrow>
          run others st1 = Next st2 \<longrightarrow> philo_step i st2 = Next st3 \<longrightarrow>
            threads st1 ! i = Running rest \<or> threads st3 ! i = Running rest)"
proof (intro conjI impI)
  assume "threads st ! i = Running ((l, Spend_loop t d) # rest) \<or>
      threads st ! i = Running ((l, Spend_body t d) # rest)"
    "simulation_ended (sim st) \<or> d \<le> clock st - t"
    "philo_step i st = Next st1" "Run_philo i \<notin> set others"
    "run others st1 = Next st2" "philo_step i st2 = Next st3"
  then show "threads st1 ! i = Running rest \<or> threads st3 ! i = Running rest"
    by (rule prompt_exit)
next
  assume "threads st ! i = Running ((l, Spend_time d) # rest)"
  then show "philo_step i st = Next (continue i ((l, Spend_loop (clock st) d) # rest) st)"
    by (rule spend_steps(1) [OF assms])
next
  assume "threads st ! i = Running ((l, Spend_loop t d) # rest)"
  then show "philo_step i st =
              (if data_mutex (sim st) \<noteq> None then Blocked
               else if simulation_ended (sim st) then Next (continue i rest st)
               else Next (continue i ((l, Spend_body t d) # rest) st))"
    by (rule spend_steps(2) [OF assms])
next
  assume "threads st ! i = Running ((l, Spend_body t d) # rest)"
  then show "philo_step i st =
              (if d \<le> clock st - t then Next (continue i rest st)
               else Next (continue i ((l, Spend_loop t d) # rest)
                 (st\<lparr>events := events st @
                    [(Philo i, Slept (if d - (clock st - t) > 10 then 1000
                                      else if d - (clock st - t) > 1 then 100 else 10))]\<rparr>)))"
    by (rule spend_steps(3) [OF assms])
next
  assume waits: "threads st ! i = Running ((l, Spend_loop t d) # rest) \<or>
      threads st ! i = Running ((l, Spend_body t d) # rest)"
    and step: "step c st = Next st'"
  show "threads st' ! i = Running rest \<longleftrightarrow>
               c = Run_philo i \<and>
               (threads st ! i = Running ((l, Spend_loop t d) # rest) \<and> simulation_ended (sim st) \<or>
                threads st ! i = Running ((l, Spend_body t d) # rest) \<and> d \<le> clock st - t)"
  proof (cases "c = Run_philo i")
    case False
    with step_other_thread [OF step False] waits show ?thesis by auto
  next
    case True
    with step have "philo_step i st = Next st'" by simp
    with waits assms True show ?thesis
      by (auto simp: spend_steps [OF assms] continue_def split: if_splits)
  qed
next
  assume waits: "threads st ! i = Running ((l, Spend_loop t d) # rest) \<or>
      threads st ! i = Running ((l, Spend_body t d) # rest)"
    and step: "step c st = Next st'"
  show "threads st' ! i = Running rest \<or>
        threads st' ! i = Running ((l, Spend_loop t d) # rest) \<or>
        threads st' ! i = Running ((l, Spend_body t d) # rest)"
  proof (cases "c = Run_philo i")
    case False
    with step_other_thread [OF step False] waits show ?thesis by auto
  next
    case True
    with step have "philo_step i st = Next st'" by simp
    with waits assms True show ?thesis
      by (auto simp: spend_steps [OF assms] continue_def split: if_splits)
  qed
qed

theorem responsive_wait_witness:
  "\<exists>st. run [Run_philo 0, Run_philo 0, Run_philo 0, Run_philo 0] alone = Next st \<and>
      0 < length (threads st) \<and> 0 < length (philosophers (sim st)) \<and>
      threads st ! 0 =
        Running ((133, Spend_loop 0 4) #
          [(134, Unlock (Fork_mutex 0)), (175, Break_if_finished),
           (177, Print ''is sleeping'' NOT_DEAD), (178, Spend_time 2), (179, Break_if_finished),
           (181, Print ''is thinking'' NOT_DEAD), (183, Usleep 100)]) \<and>
      philo_step 0 st =
        Next (continue 0 ((133, Spend_body 0 4) #
          [(134, Unlock (Fork_mutex 0)), (175, Break_if_finished),
           (177, Print ''is sleeping'' NOT_DEAD), (178, Spend_time 2), (179, Break_if_finished),
           (181, Print ''is thinking'' NOT_DEAD), (183, Usleep 100)]) st)"
proof -
  let ?rest = "[(134, Unlock (Fork_mutex 0)), (175, Break_if_finished),
           (177, Print ''is sleeping'' NOT_DEAD), (178, Spend_time 2), (179, Break_if_finished),
           (181, Print ''is thinking'' NOT_DEAD), (183, Usleep 100)]"
  define st where "st =
    \<lparr>sim = (simulation_of 3 2 2 1 [initial_philosopher 1 0 1])\<lparr>fork_mutexes := [Some (Philo 0)]\<rparr>,
     threads = [Running ((133, Spend_loop 0 4) # ?rest)],
     monitor = Mon_start, clock = 0,
     events = [(Philo 0, Printed 1 ''has taken a fork'' NOT_DEAD)]\<rparr>"
  have run: "run [Run_philo 0, Run_philo 0, Run_philo 0, Run_philo 0] alone = Next st"
    by (simp add: alone_def st_def evaluation)
  have range: "0 < length (threads st)" "0 < length (philosophers (sim st))"
    by (simp_all add: st_def simulation_of_def)
  have at: "threads st ! 0 = Running ((133, Spend_loop 0 4) # ?rest)"
    by (simp add: st_def)
  have free: "data_mutex (sim st) = None" "\<not> simulation_ended (sim st)"
    by (simp_all add: st_def simulation_of_def)
  from responsive_wait [OF range, where l = 133 and rest = ?rest and t = 0 and d = 4] at free
  have "philo_step 0 st = Next (continue 0 ((133, Spend_body 0 4) # ?rest) st)"
    by simp
  with run range at show ?thesis by blast
qed




text \<open>C6. The flag latches. Along every run, once \<^verbatim>\<open>simulation_ended\<close> is true it stays
  true. No step of a philosopher and no tick of the clock changes it; a step of the
  monitor changes it only to true, and only in the evaluation of its polling loop, whose
  two checks either leave the simulation as it is or set the flag.\<close>

theorem flag_latches:
  "(run cs st = Next st' \<longrightarrow> simulation_ended (sim st) \<longrightarrow> simulation_ended (sim st')) \<and>
   (philo_step i st = Next st' \<longrightarrow> simulation_ended (sim st') = simulation_ended (sim st)) \<and>
   (step (Tick ms) st = Next st' \<longrightarrow> simulation_ended (sim st') = simulation_ended (sim st)) \<and>
   (monitor_step st = Next st' \<longrightarrow> simulation_ended (sim st') \<noteq> simulation_ended (sim st) \<longrightarrow>
      simulation_ended (sim st') \<and> (\<exists>us. monitor st = Mon_poll us)) \<and>
   (check_for_death s now = Next (s', r) \<longrightarrow> s' = s \<or> s' = s\<lparr>simulation_ended := True\<rparr>) \<and>
   (check_all_philosophers_satisfied s = Next (s', r) \<longrightarrow>
      s' = s \<or> s' = s\<lparr>simulation_ended := True\<rparr>)"
proof (intro conjI impI)
  assume "run cs st = Next st'" "simulation_ended (sim st)"
  then show "simulation_ended (sim st')" by (rule run_keeps_flag)
next
  assume "philo_step i st = Next st'"
  then show "simulation_ended (sim st') = simulation_ended (sim st)" by (rule philo_step_frame)
next
  assume "step (Tick ms) st = Next st'"
  then show "simulation_ended (sim st') = simulation_ended (sim st)"
    by (auto split: if_splits)
next
  assume "monitor_step st = Next st'" "simulation_ended (sim st') \<noteq> simulation_ended (sim st)"
  then show "simulation_ended (sim st')" using monitor_step_flag(2) by blast
next
  assume "monitor_step st = Next st'" "simulation_ended (sim st') \<noteq> simulation_ended (sim st)"
  then show "\<exists>us. monitor st = Mon_poll us" using monitor_step_flag(2) by blast
next
  assume "check_for_death s now = Next (s', r)"
  then show "s' = s \<or> s' = s\<lparr>simulation_ended := True\<rparr>"
    by (auto dest: check_for_death_writes)
next
  assume "check_all_philosophers_satisfied s = Next (s', r)"
  then show "s' = s \<or> s' = s\<lparr>simulation_ended := True\<rparr>"
    by (auto dest: check_all_philosophers_satisfied_writes)
qed

theorem flag_latches_witness:
  "\<exists>mid fin.
     run [Tick 3, Run_monitor, Run_monitor] alone = Next mid \<and> simulation_ended (sim mid) \<and>
     run [Run_philo 0, Run_monitor, Tick 1] mid = Next fin \<and> simulation_ended (sim fin) \<and>
     threads fin = [Returned]"
proof -
  define mid where "mid =
    \<lparr>sim = (simulation_of 3 2 2 1 [initial_philosopher 1 0 1])\<lparr>simulation_ended := True\<rparr>,
     threads = [Running []], monitor = Mon_join 0, clock = 3,
     events = [(Monitor, Printed 1 ''died'' TRUE)]\<rparr>"
  define fin where "fin = mid\<lparr>threads := [Returned], monitor := Mon_join 1, clock := 4\<rparr>"
  have first: "run [Tick 3, Run_monitor, Run_monitor] alone = Next mid"
    by (simp add: alone_def mid_def evaluation)
  have ended: "simulation_ended (sim mid)"
    by (simp add: mid_def)
  have second: "run [Run_philo 0, Run_monitor, Tick 1] mid = Next fin"
    by (simp add: mid_def fin_def evaluation)
  from flag_latches [of "[Run_philo 0, Run_monitor, Tick 1]" mid fin] second ended
  have "simulation_ended (sim fin)" by blast
  moreover have "threads fin = [Returned]" by (simp add: fin_def)
  ultimately show ?thesis using first ended second by blast
qed



text \<open>C8. The code at the input \<^verbatim>\<open>2 800 200 200\<close> (two philosophers, 800 ms to die, 200 ms
  to eat, 200 ms to sleep). The thread of philosopher 2 starts with the call of line 171,
  \<^verbatim>\<open>usleep(time_to_eat / 2)\<close>, which receives 100: it asks for 100 microseconds, where half
  the eating time is 100 milliseconds, that is 100000 microseconds. After this one call the
  thread is at the loop condition of line 172. The thread of philosopher 1 is at the loop
  condition from the start.\<close>

theorem startup_stagger_shortfall:
  "time_to_eat (simulation_of 800 200 200 (- 1)
      [initial_philosopher 2 0 1, initial_philosopher 2 0 2]) = 200 \<and>
   map philo_id (philosophers (simulation_of 800 200 200 (- 1)
      [initial_philosopher 2 0 1, initial_philosopher 2 0 2])) = [1, 2] \<and>
   threads (initial_state (simulation_of 800 200 200 (- 1)
      [initial_philosopher 2 0 1, initial_philosopher 2 0 2]) 0) =
     [Running [], Running [(171, Usleep 100)]] \<and>
   philo_step 1 (initial_state (simulation_of 800 200 200 (- 1)
      [initial_philosopher 2 0 1, initial_philosopher 2 0 2]) 0) =
     Next ((initial_state (simulation_of 800 200 200 (- 1)
        [initial_philosopher 2 0 1, initial_philosopher 2 0 2]) 0)
       \<lparr>threads := [Running [], Running []], events := [(Philo 1, Slept 100)]\<rparr>) \<and>
   ms_as_us (c_div (time_to_eat (simulation_of 800 200 200 (- 1)
      [initial_philosopher 2 0 1, initial_philosopher 2 0 2])) 2) = 100000"
  by (simp add: ms_as_us_def evaluation)

text \<open>C9. The monitor only reads the records. Each of \<^verbatim>\<open>check_for_death\<close>,
  \<^verbatim>\<open>check_all_philosophers_satisfied\<close> and \<^verbatim>\<open>evaluate_simulation_status\<close> returns the
  simulation it was given with at most the flag changed (the state lock is taken and
  released inside the evaluation): every record and every fork mutex is as before. So
  is every step of the monitor before the destruction of the mutexes at the end of the
  cleanup, which leaves the threads and the clock alone as well; the fork mutexes are
  touched by that last step only.\<close>

theorem monitor_reads_only:
  "(check_for_death s now = Next (s', r) \<longrightarrow>
      s' = s\<lparr>simulation_ended := simulation_ended s'\<rparr> \<and>
      philosophers s' = philosophers s \<and> fork_mutexes s' = fork_mutexes s) \<and>
   (check_all_philosophers_satisfied s = Next (s', r) \<longrightarrow>
      s' = s\<lparr>simulation_ended := simulation_ended s'\<rparr> \<and>
      philosophers s' = philosophers s \<and> fork_mutexes s' = fork_mutexes s) \<and>
   (evaluate_simulation_status s now = Next (s', printed, r) \<longrightarrow>
      s' = s\<lparr>simulation_ended := simulation_ended s'\<rparr> \<and>
      philosophers s' = philosophers s \<and> fork_mutexes s' = fork_mutexes s) \<and>
   (monitor_step st = Next st' \<longrightarrow> monitor st \<noteq> Mon_destroy \<longrightarrow>
      sim st' = (sim st)\<lparr>simulation_ended := simulation_ended (sim st')\<rparr> \<and>
      philosophers (sim st') = philosophers (sim st) \<and>
      fork_mutexes (sim st') = fork_mutexes (sim st) \<and>
      threads st' = threads st \<and> clock st' = clock st) \<and>
   (monitor_step st = Next st' \<longrightarrow> monitor st = Mon_destroy \<longrightarrow>
      Destroyed (Fork_mutex 0) \<in> snd ` set (events st') \<or> philosopher_count (sim st) \<le> 0)"
proof (intro conjI impI)
  assume "check_for_death s now = Next (s', r)"
  from check_for_death_writes [OF this]
  show "s' = s\<lparr>simulation_ended := simulation_ended s'\<rparr>" "philosophers s' = philosophers s"
    "fork_mutexes s' = fork_mutexes s"
    by auto
next
  assume "check_all_philosophers_satisfied s = Next (s', r)"
  from check_all_philosophers_satisfied_writes [OF this]
  show "s' = s\<lparr>simulation_ended := simulation_ended s'\<rparr>" "philosophers s' = philosophers s"
    "fork_mutexes s' = fork_mutexes s"
    by auto
next
  assume "evaluate_simulation_status s now = Next (s', printed, r)"
  from evaluate_writes [OF this]
  show "s' = s\<lparr>simulation_ended := simulation_ended s'\<rparr>" "philosophers s' = philosophers s"
    "fork_mutexes s' = fork_mutexes s"
    by auto
next
  assume a: "monitor_step st = Next st'" "monitor st \<noteq> Mon_destroy"
  then have "sim st' = (sim st)\<lparr>simulation_ended := simulation_ended (sim st')\<rparr> \<and>
      threads st' = threads st \<and> clock st' = clock st"
    by (cases rule: monitor_stepE) (auto dest!: evaluate_writes)
  then show "sim st' = (sim st)\<lparr>simulation_ended := simulation_ended (sim st')\<rparr>"
    "threads st' = threads st" "clock st' = clock st"
    by simp_all
  from a show "philosophers (sim st') = philosophers (sim st)"
    "fork_mutexes (sim st') = fork_mutexes (sim st)"
    by (cases rule: monitor_stepE; auto dest!: evaluate_writes)+
next
  assume a: "monitor_step st = Next st'" "monitor st = Mon_destroy"
  show "Destroyed (Fork_mutex 0) \<in> snd ` set (events st') \<or> philosopher_count (sim st) \<le> 0"
  proof (cases "philosopher_count (sim st) \<le> 0")
    case True
    then show ?thesis by simp
  next
    case False
    then have "0 \<in> set [0 ..< nat (philosopher_count (sim st))]" by simp
    then have "Destroyed (Fork_mutex (int 0)) \<in>
        (\<lambda>i. Destroyed (Fork_mutex (int i))) ` set [0 ..< nat (philosopher_count (sim st))]"
      by (rule imageI)
    with a show ?thesis
      by (cases rule: monitor_stepE) (auto simp: destroy_and_free_def image_Un image_image)
  qed
qed

theorem monitor_reads_only_witness:
  "\<exists>st st'.
     run [Tick 3, Run_monitor] alone = Next st \<and> monitor st = Mon_poll 500 \<and>
     monitor_step st = Next st' \<and> simulation_ended (sim st') \<and>
     \<not> simulation_ended (sim st) \<and>
     sim st' = (sim st)\<lparr>simulation_ended := True\<rparr> \<and>
     philosophers (sim st') = philosophers (sim st) \<and>
     fork_mutexes (sim st') = fork_mutexes (sim st) \<and> threads st' = threads st"
proof -
  define st where "st =
    \<lparr>sim = simulation_of 3 2 2 1 [initial_philosopher 1 0 1],
     threads = [Running []], monitor = Mon_poll 500, clock = 3, events = []\<rparr>"
  define st' where "st' =
    st\<lparr>sim := (sim st)\<lparr>simulation_ended := True\<rparr>,
       events := [(Monitor, Printed 1 ''died'' TRUE)], monitor := Mon_join 0\<rparr>"
  have first: "run [Tick 3, Run_monitor] alone = Next st"
    by (simp add: alone_def st_def evaluation)
  have second: "monitor_step st = Next st'"
    by (simp add: st_def st'_def evaluation)
  have polling: "monitor st \<noteq> Mon_destroy" "monitor st = Mon_poll 500"
    by (simp_all add: st_def)
  have flags: "simulation_ended (sim st')" "\<not> simulation_ended (sim st)"
    by (simp_all add: st_def st'_def simulation_of_def)
  from monitor_reads_only [of _ _ _ _ _ st st'] second polling(1)
  have "sim st' = (sim st)\<lparr>simulation_ended := simulation_ended (sim st')\<rparr> \<and>
      philosophers (sim st') = philosophers (sim st) \<and>
      fork_mutexes (sim st') = fork_mutexes (sim st) \<and>
      threads st' = threads st \<and> clock st' = clock st"
    by blast
  with flags first second polling(2) show ?thesis
    by (intro exI [of _ st] exI [of _ st']) simp
qed

text \<open>C10. With one philosopher, whose record is \<open>philo\<close> at the start, every state that
  a run reaches before the records are freed at the end of the cleanup still has that
  record unchanged: \<^verbatim>\<open>last_meal_time\<close> and \<^verbatim>\<open>meals_eaten\<close> are never written. If the
  philosopher starts with no meal eaten and \<^verbatim>\<open>required_meals\<close> is at least 1, the
  satisfaction check returns \<^verbatim>\<open>FALSE\<close> and changes nothing in every such state, and
  whenever the flag is set the monitor has printed a death.\<close>

theorem single_philosopher_never_eats:
  assumes "philosopher_count s = 1" "philosophers s = [philo]"
    "run cs (initial_state s start) = Next st"
  shows "(monitor st \<noteq> Mon_returned \<longrightarrow> philosophers (sim st) = [philo]) \<and>
         (meals_eaten philo = 0 \<longrightarrow> 1 \<le> required_meals s \<longrightarrow>
            (monitor st \<noteq> Mon_returned \<longrightarrow>
               check_all_philosophers_satisfied (sim st) = Next (sim st, FALSE)) \<and>
            (\<not> simulation_ended s \<longrightarrow> simulation_ended (sim st) \<longrightarrow> death_reported st))"
proof (intro conjI impI)
  assume "monitor st \<noteq> Mon_returned"
  with lonely_records_run [OF assms] show "philosophers (sim st) = [philo]" by blast
next
  assume never: "meals_eaten philo = 0" "1 \<le> required_meals s" and "monitor st \<noteq> Mon_returned"
  with lonely_records_run [OF assms]
  have records: "philosopher_count (sim st) = 1" "philosophers (sim st) = [philo]" by blast+
  then have alloc: "records_allocated (sim st)"
    by (simp add: records_allocated_def)
  have "required_meals (sim st) = required_meals s"
    using run_config [OF assms(3)] by (simp add: initial_state_def)
  with never records have "\<not> (\<forall>philo \<in> set (philosophers (sim st)). satisfied (sim st) philo)"
    by (simp add: satisfied_def)
  with check_all_philosophers_satisfied_eq [OF alloc]
  show "check_all_philosophers_satisfied (sim st) = Next (sim st, FALSE)" by simp
next
  assume "meals_eaten philo = 0" "1 \<le> required_meals s" "\<not> simulation_ended s"
    "simulation_ended (sim st)"
  with lonely_death_run [OF assms(1,2) _ _ _ assms(3)] show "death_reported st" by blast
qed

theorem single_philosopher_never_eats_witness:
  "philosopher_count (sim alone) = 1 \<and>
   philosophers (sim alone) = [initial_philosopher 1 0 1] \<and>
   meals_eaten (initial_philosopher 1 0 1) = 0 \<and> required_meals (sim alone) = 1 \<and>
   \<not> simulation_ended (sim alone) \<and>
   (\<exists>st. run [Run_philo 0, Run_philo 0, Run_philo 0, Tick 3, Run_monitor, Run_monitor] alone = Next st \<and>
      simulation_ended (sim st) \<and> death_reported st \<and>
      philosophers (sim st) = [initial_philosopher 1 0 1] \<and>
      check_all_philosophers_satisfied (sim st) = Next (sim st, FALSE))"
proof -
  let ?s = "simulation_of 3 2 2 1 [initial_philosopher 1 0 1]"
  define st where "st =
    \<lparr>sim = ?s\<lparr>simulation_ended := True, fork_mutexes := [Some (Philo 0)]\<rparr>,
     threads = [Running [(133, Spend_time 4), (134, Unlock (Fork_mutex 0)),
       (175, Break_if_finished), (177, Print ''is sleeping'' NOT_DEAD),
       (178, Spend_time 2), (179, Break_if_finished), (181, Print ''is thinking'' NOT_DEAD),
       (183, Usleep 100)]],
     monitor = Mon_join 0, clock = 3,
     events = [(Philo 0, Printed 1 ''has taken a fork'' NOT_DEAD),
               (Monitor, Printed 1 ''died'' TRUE)]\<rparr>"
  have h: "philosopher_count ?s = 1" "philosophers ?s = [initial_philosopher 1 0 1]"
    "meals_eaten (initial_philosopher 1 0 1) = 0" "required_meals ?s = 1"
    "\<not> simulation_ended ?s"
    by (simp_all add: simulation_of_def initial_philosopher_def)
  have run: "run [Run_philo 0, Run_philo 0, Run_philo 0, Tick 3, Run_monitor, Run_monitor]
      (initial_state ?s 0) = Next st"
    by (simp add: st_def evaluation)
  have ended: "simulation_ended (sim st)" and polling: "monitor st \<noteq> Mon_returned"
    by (simp_all add: st_def)
  from single_philosopher_never_eats [OF h(1,2) run] h(3,4,5) ended polling
  have "philosophers (sim st) = [initial_philosopher 1 0 1]"
    "check_all_philosophers_satisfied (sim st) = Next (sim st, FALSE)" "death_reported st"
    by simp_all
  with run ended h show ?thesis
    by (auto simp: alone_def initial_state_def)
qed

end
